theory Spec2Isabelle
  imports Complex_Main
begin

section \<open>Python values, errors and results\<close>

text \<open>
  The values the scene nodes only store and pass on (transforms, materials, stream data,
  attribute values, keyword arguments). \<open>PObj c fs\<close> is an instance of an external value
  class \<open>c\<close> built from the keyword arguments \<open>fs\<close>.
\<close>

datatype pyval =
    PNone
  | PBool bool
  | PInt int
  | PFloat real
  | PStr string
  | PSeq "pyval list"
  | PObj string "(string \<times> pyval) list"

text \<open>The exceptions that the code under study can raise; a \<open>KeyError\<close> carries its key.\<close>

datatype error = TypeError | AttributeError | KeyError string | RecursionError

text \<open>
  A call either returns a value or raises; both outcomes carry the state (an object or the
  whole store) as the call left it, since a raise does not undo earlier assignments.
\<close>

datatype ('a, 's) result = Return 'a 's | Raise error 's

type_synonym kwargs = "string \<rightharpoonup> pyval"

text \<open>\<open>d.get(k, default)\<close> on a dictionary.\<close>

definition dict_get :: "kwargs \<Rightarrow> string \<Rightarrow> pyval \<Rightarrow> pyval" where
  "dict_get d k dflt = (case d k of None \<Rightarrow> dflt | Some v \<Rightarrow> v)"

text \<open>
  \<open>data[k]\<close> where \<open>data\<close> is \<open>None\<close> (not subscriptable) or a dictionary (a missing key
  raises \<open>KeyError\<close>).
\<close>

definition getitem :: "kwargs option \<Rightarrow> string \<Rightarrow> error + pyval" where
  "getitem data k =
     (case data of
        None \<Rightarrow> Inl TypeError
      | Some d \<Rightarrow> (case d k of None \<Rightarrow> Inl (KeyError k) | Some v \<Rightarrow> Inr v))"

section \<open>External record classes\<close>

text \<open>
  Modelled from the spec: the classes \<open>TkSceneNodeAttributeData\<close>, \<open>TkSceneNodeData\<close>,
  \<open>TkTransformData\<close>, \<open>TkMaterialData\<close> and \<open>List\<close> are imported by \<open>Object.py\<close> but
  their modules are not part of the sources. An attribute is a (name, value) pair, an
  output record has the fields name, type, transform, attributes (a list or null) and
  children (a list of records or null), and \<open>List\<close> is an ordered sequence built from its
  arguments and extended by \<open>append\<close>. The elements of a children list are what
  \<open>get_data\<close> returned, which is a record or \<open>None\<close>.
\<close>

datatype TkSceneNodeAttributeData =
  TkSceneNodeAttributeData (attr_Name: string) (attr_Value: pyval)

datatype TkSceneNodeData =
  TkSceneNodeData
    (nd_Name: string)
    (nd_Type: string)
    (nd_Transform: pyval)
    (nd_Attributes: "TkSceneNodeAttributeData list option")
    (nd_Children: "TkSceneNodeData option list option")

definition TkTransformData :: pyval where
  "TkTransformData = PObj ''TkTransformData'' []"

definition TkMaterialData :: "string \<Rightarrow> pyval" where
  "TkMaterialData n = PObj ''TkMaterialData'' [(''Name'', PStr n)]"

section \<open>Objects\<close>

type_synonym ref = nat

text \<open>The attributes that \<open>Mesh.__init__\<close> and the mesh branch of \<open>Collision.__init__\<close> assign.\<close>

record mesh_data =
  Vertices :: pyval
  Indexes :: pyval
  Material :: pyval
  UVs :: pyval
  Normals :: pyval
  Tangents :: pyval

text \<open>The attributes that the other branch of \<open>Collision.__init__\<close> assigns.\<close>

record dims =
  Width :: pyval
  Height :: pyval
  Depth :: pyval
  Radius :: pyval

datatype coll_attrs = MeshAttrs mesh_data | PrimAttrs dims

text \<open>
  The seven concrete classes, each with the attributes that only its own \<open>__init__\<close>
  assigns. In particular \<open>ListOfMeshes\<close> exists on instances of \<open>Model\<close> and on no other.
\<close>

datatype variant =
    LocatorV pyval
  | JointV
  | EmitterV
  | MeshV mesh_data
  | CollisionV pyval coll_attrs
  | ModelV "ref list"
  | ReferenceV pyval

text \<open>The attributes assigned by \<open>Object.__init__\<close>.\<close>

record Object =
  Transform :: pyval
  Attributes :: "TkSceneNodeAttributeData list option"
  Children :: "ref list"
  Parent :: "ref option"
  IsMesh :: bool
  NodeData :: "TkSceneNodeData option"
  ID :: pyval
  provided_streams :: "string set"

text \<open>
  An instance of a concrete class: the attributes of \<open>Object\<close>, the \<open>Name\<close> and \<open>_Type\<close>
  that every subclass assigns, and the attributes of the subclass. \<open>Child_Nodes\<close> is
  assigned by \<open>construct_data\<close> before it is read, so the time before the first assignment
  is represented by \<open>None\<close>.
\<close>

record Node = Object +
  Name :: string
  Type :: string
  Child_Nodes :: "TkSceneNodeData option list option"
  payload :: variant

type_synonym heap = "ref \<Rightarrow> Node"

datatype cls = ObjectC | LocatorC | JointC | EmitterC | MeshC | CollisionC | ModelC | ReferenceC

text \<open>Every concrete class is declared as \<open>class X(Object)\<close>.\<close>

definition mro :: "cls \<Rightarrow> cls list" where
  "mro c = (if c = ObjectC then [ObjectC] else [c, ObjectC])"

text \<open>
  \<open>super(c, self)\<close> for \<open>self\<close> of class \<open>t\<close>: Python raises \<open>TypeError\<close> unless \<open>self\<close>
  is an instance of \<open>c\<close>; otherwise attribute lookup starts at the class after \<open>c\<close> in the
  method resolution order of \<open>t\<close> (\<open>None\<close> stands for the built-in \<open>object\<close>).
\<close>

fun next_in :: "cls \<Rightarrow> cls list \<Rightarrow> cls option" where
  "next_in c [] = None"
| "next_in c [x] = None"
| "next_in c (x # y # ys) = (if x = c then Some y else next_in c (y # ys))"

definition py_super :: "cls \<Rightarrow> cls \<Rightarrow> error + cls option" where
  "py_super c t = (if c \<in> set (mro t) then Inr (next_in c (mro t)) else Inl TypeError)"

definition Object_init :: "kwargs \<Rightarrow> Object" where
  "Object_init kw =
     \<lparr> Transform = dict_get kw ''Transform'' TkTransformData,
       Attributes = None,
       Children = [],
       Parent = None,
       IsMesh = False,
       NodeData = None,
       ID = PNone,
       provided_streams = {} \<rparr>"

text \<open>
  \<open>super(c, self).__init__(**kwargs)\<close> inside the \<open>__init__\<close> of class \<open>t\<close>: the only
  \<open>__init__\<close> above a concrete class is that of \<open>Object\<close>.
\<close>

definition super_init :: "cls \<Rightarrow> cls \<Rightarrow> kwargs \<Rightarrow> error + Object" where
  "super_init c t kw =
     (case py_super c t of
        Inl e \<Rightarrow> Inl e
      | Inr None \<Rightarrow> (if kw = Map.empty then Inr (Object_init Map.empty) else Inl TypeError)
      | Inr (Some _) \<Rightarrow> Inr (Object_init kw))"

text \<open>
  The case \<open>Inr None\<close> is the \<open>__init__\<close> of the built-in \<open>object\<close>, which accepts no
  keyword argument; no call in the source reaches it.
\<close>

text \<open>The instance after the assignments of \<open>Name\<close>, \<open>_Type\<close> and the subclass attributes.\<close>

definition instance_of :: "Object \<Rightarrow> string \<Rightarrow> string \<Rightarrow> variant \<Rightarrow> Node" where
  "instance_of b n t v =
     \<lparr> Transform = Transform b,
       Attributes = Attributes b,
       Children = Children b,
       Parent = Parent b,
       IsMesh = IsMesh b,
       NodeData = NodeData b,
       ID = ID b,
       provided_streams = provided_streams b,
       Name = n,
       Type = t,
       Child_Nodes = None,
       payload = v \<rparr>"

text \<open>\<open>self.__dict__.get(name, None)\<close> for the five stream names.\<close>

definition mesh_data_get :: "mesh_data \<Rightarrow> string \<Rightarrow> pyval" where
  "mesh_data_get m name =
     (if name = ''Vertices'' then Vertices m
      else if name = ''Indexes'' then Indexes m
      else if name = ''UVs'' then UVs m
      else if name = ''Normals'' then Normals m
      else if name = ''Tangents'' then Tangents m
      else PNone)"

definition self_dict_get :: "Node \<Rightarrow> string \<Rightarrow> pyval" where
  "self_dict_get self name =
     (case payload self of
        MeshV m \<Rightarrow> mesh_data_get m name
      | CollisionV _ (MeshAttrs m) \<Rightarrow> mesh_data_get m name
      | _ \<Rightarrow> PNone)"

definition stream_names :: "string list" where
  "stream_names = [''Vertices'', ''Indexes'', ''UVs'', ''Normals'', ''Tangents'']"

definition determine_included_streams :: "Node \<Rightarrow> Node" where
  "determine_included_streams self =
     fold (\<lambda>name s.
             if self_dict_get s name \<noteq> PNone
             then s\<lparr>provided_streams := provided_streams s \<union> {name}\<rparr>
             else s)
          stream_names self"

subsection \<open>Constructors\<close>

definition Locator_init :: "string \<Rightarrow> kwargs \<Rightarrow> error + Node" where
  "Locator_init n kw =
     (case super_init LocatorC LocatorC kw of
        Inl e \<Rightarrow> Inl e
      | Inr b \<Rightarrow> Inr (instance_of b n ''LOCATOR''
                        (LocatorV (dict_get kw ''ATTACHMENT'' (PBool False)))))"

definition Joint_init :: "string \<Rightarrow> kwargs \<Rightarrow> error + Node" where
  "Joint_init n kw =
     (case super_init LocatorC JointC kw of
        Inl e \<Rightarrow> Inl e
      | Inr b \<Rightarrow> Inr (instance_of b n ''JOINT'' JointV))"

definition Emitter_init :: "string \<Rightarrow> kwargs \<Rightarrow> error + Node" where
  "Emitter_init n kw =
     (case super_init LocatorC EmitterC kw of
        Inl e \<Rightarrow> Inl e
      | Inr b \<Rightarrow> Inr (instance_of b n ''EMITTER'' EmitterV))"

definition Mesh_init :: "string \<Rightarrow> kwargs \<Rightarrow> error + Node" where
  "Mesh_init n kw =
     (case super_init MeshC MeshC kw of
        Inl e \<Rightarrow> Inl e
      | Inr b \<Rightarrow>
          Inr (determine_included_streams
                 ((instance_of b n ''MESH''
                     (MeshV \<lparr> Vertices = dict_get kw ''Vertices'' PNone,
                              Indexes = dict_get kw ''Indexes'' PNone,
                              Material = dict_get kw ''Material'' (TkMaterialData ''EMPTY''),
                              UVs = dict_get kw ''UVs'' PNone,
                              Normals = dict_get kw ''Normals'' PNone,
                              Tangents = dict_get kw ''Tangents'' PNone \<rparr>))
                  \<lparr>IsMesh := True\<rparr>)))"

definition Collision_init :: "string \<Rightarrow> kwargs \<Rightarrow> error + Node" where
  "Collision_init n kw =
     (case super_init CollisionC CollisionC kw of
        Inl e \<Rightarrow> Inl e
      | Inr b \<Rightarrow>
          (let CType = dict_get kw ''CollisionType'' (PStr ''Mesh'') in
           if CType = PStr ''Mesh''
           then Inr (determine_included_streams
                       ((instance_of b n ''COLLISION''
                           (CollisionV CType
                              (MeshAttrs \<lparr> Vertices = dict_get kw ''Vertices'' PNone,
                                           Indexes = dict_get kw ''Indexes'' PNone,
                                           Material = PNone,
                                           UVs = dict_get kw ''UVs'' PNone,
                                           Normals = dict_get kw ''Normals'' PNone,
                                           Tangents = dict_get kw ''Tangents'' PNone \<rparr>)))
                        \<lparr>IsMesh := True\<rparr>))
           else Inr (instance_of b n ''COLLISION''
                       (CollisionV CType
                          (PrimAttrs \<lparr> Width = dict_get kw ''Width'' (PInt 0),
                                       Height = dict_get kw ''Height'' (PInt 0),
                                       Depth = dict_get kw ''Depth'' (PInt 0),
                                       Radius = dict_get kw ''Radius'' (PInt 0) \<rparr>)))))"

definition Model_init :: "string \<Rightarrow> kwargs \<Rightarrow> error + Node" where
  "Model_init n kw =
     (case super_init ModelC ModelC kw of
        Inl e \<Rightarrow> Inl e
      | Inr b \<Rightarrow> Inr (instance_of b n ''MODEL'' (ModelV [])))"

definition Reference_init :: "string \<Rightarrow> kwargs \<Rightarrow> error + Node" where
  "Reference_init n kw =
     (case super_init ReferenceC ReferenceC kw of
        Inl e \<Rightarrow> Inl e
      | Inr b \<Rightarrow>
          Inr (instance_of b n ''REFERENCE''
                 (ReferenceV (dict_get kw ''Scenegraph''
                    (PStr ''Enter in the path of the SCENE.MBIN you want to reference here.'')))))"

text \<open>
  \<open>Construct\<close> of the specification: the call \<open>C(Name, **kwargs)\<close> for a class \<open>C\<close>.
  The base class takes no positional argument, so \<open>Object(Name)\<close> raises \<open>TypeError\<close>.
\<close>

fun Construct :: "cls \<Rightarrow> string \<Rightarrow> kwargs \<Rightarrow> error + Node" where
  "Construct LocatorC n kw = Locator_init n kw"
| "Construct JointC n kw = Joint_init n kw"
| "Construct EmitterC n kw = Emitter_init n kw"
| "Construct MeshC n kw = Mesh_init n kw"
| "Construct CollisionC n kw = Collision_init n kw"
| "Construct ModelC n kw = Model_init n kw"
| "Construct ReferenceC n kw = Reference_init n kw"
| "Construct ObjectC n kw = Inl TypeError"

section \<open>Attribute assembly\<close>

text \<open>
  \<open>create_attributes\<close> assigns \<open>self.Attributes\<close> and touches no other object, so its state
  is the instance itself. The arguments of a call are evaluated from left to right, and
  the assignment happens only when all of them have been evaluated.
\<close>

definition attr_from :: "kwargs option \<Rightarrow> string \<Rightarrow> string \<Rightarrow> error + TkSceneNodeAttributeData" where
  "attr_from data name k =
     (case getitem data k of
        Inl e \<Rightarrow> Inl e
      | Inr v \<Rightarrow> Inr (TkSceneNodeAttributeData name v))"

text \<open>
  The arguments of a \<open>List(...)\<close> call, in order: the first failing one raises and the
  list is not built.
\<close>

fun List_of :: "(error + TkSceneNodeAttributeData) list \<Rightarrow> error + TkSceneNodeAttributeData list" where
  "List_of [] = Inr []"
| "List_of (Inl e # xs) = Inl e"
| "List_of (Inr a # xs) = (case List_of xs of Inl e \<Rightarrow> Inl e | Inr as \<Rightarrow> Inr (a # as))"

text \<open>\<open>self.Attributes = List(...)\<close>.\<close>

definition assign_Attributes :: "Node \<Rightarrow> (error + TkSceneNodeAttributeData) list \<Rightarrow> (unit, Node) result" where
  "assign_Attributes self args =
     (case List_of args of
        Inl e \<Rightarrow> Raise e self
      | Inr as \<Rightarrow> Return () (self\<lparr>Attributes := Some as\<rparr>))"

text \<open>
  \<open>self.Attributes.append(...)\<close>, one statement after the other; a statement that raises
  leaves the pairs appended so far.
\<close>

fun append_Attributes :: "Node \<Rightarrow> (error + TkSceneNodeAttributeData) list \<Rightarrow> (unit, Node) result" where
  "append_Attributes self [] = Return () self"
| "append_Attributes self (Inl e # xs) = Raise e self"
| "append_Attributes self (Inr a # xs) =
     (case Attributes self of
        None \<Rightarrow> Raise AttributeError self
      | Some as \<Rightarrow> append_Attributes (self\<lparr>Attributes := Some (as @ [a])\<rparr>) xs)"

definition Locator_create_attributes :: "Node \<Rightarrow> kwargs option \<Rightarrow> (unit, Node) result" where
  "Locator_create_attributes self data =
     (if data \<noteq> None
      then assign_Attributes self [attr_from data ''ATTACHMENT'' ''ATTACHMENT'']
      else Return () self)"

definition Joint_create_attributes :: "Node \<Rightarrow> kwargs option \<Rightarrow> (unit, Node) result" where
  "Joint_create_attributes self data =
     (if data \<noteq> None
      then assign_Attributes self [attr_from data ''JOINTINDEX'' ''JOINTINDEX'']
      else Return () self)"

definition Emitter_create_attributes :: "Node \<Rightarrow> kwargs option \<Rightarrow> (unit, Node) result" where
  "Emitter_create_attributes self data =
     (if data \<noteq> None
      then assign_Attributes self
             [attr_from data ''MATERIAL'' ''MATERIAL'', attr_from data ''DATA'' ''DATA'']
      else Return () self)"

definition Mesh_create_attributes :: "Node \<Rightarrow> kwargs option \<Rightarrow> (unit, Node) result" where
  "Mesh_create_attributes self data =
     assign_Attributes self
       [attr_from data ''BATCHSTART'' ''BATCHSTART'',
        attr_from data ''BATCHCOUNT'' ''BATCHCOUNT'',
        attr_from data ''VERTRSTART'' ''VERTRSTART'',
        attr_from data ''VERTREND'' ''VERTREND'',
        Inr (TkSceneNodeAttributeData ''FIRSTSKINMAT'' (PInt 0)),
        Inr (TkSceneNodeAttributeData ''LASTSKINMAT'' (PInt 0)),
        attr_from data ''MATERIAL'' ''MATERIAL'',
        Inr (TkSceneNodeAttributeData ''MESHLINK'' (PStr (Name self @ ''Shape''))),
        attr_from data ''ATTACHMENT'' ''ATTACHMENT'']"

text \<open>\<open>self.CType\<close> of a \<open>Collision\<close> instance.\<close>

definition CType :: "Node \<Rightarrow> pyval" where
  "CType self = (case payload self of CollisionV t _ \<Rightarrow> t | _ \<Rightarrow> PNone)"

definition Collision_create_attributes :: "Node \<Rightarrow> kwargs option \<Rightarrow> (unit, Node) result" where
  "Collision_create_attributes self data =
     (case assign_Attributes self [Inr (TkSceneNodeAttributeData ''TYPE'' (CType self))] of
        Raise e s \<Rightarrow> Raise e s
      | Return _ s \<Rightarrow>
          if CType s = PStr ''Mesh'' then
            append_Attributes s
              [attr_from data ''BATCHSTART'' ''BATCHSTART'',
               attr_from data ''BATCHCOUNT'' ''BATCHCOUNT'',
               attr_from data ''VERTRSTART'' ''VERTRSTART'',
               attr_from data ''VERTREND'' ''VERTREND'',
               Inr (TkSceneNodeAttributeData ''FIRSTSKINMAT'' (PInt 0)),
               Inr (TkSceneNodeAttributeData ''LASTSKINMAT'' (PInt 0))]
          else if CType s = PStr ''Box'' then
            append_Attributes s
              [attr_from data ''WIDTH'' ''WIDTH'',
               attr_from data ''HEIGHT'' ''HEIGHT'',
               attr_from data ''DEPTH'' ''DEPTH'']
          else if CType s = PStr ''Sphere'' then
            append_Attributes s [attr_from data ''RADIUS'' ''RADIUS'']
          else if CType s = PStr ''Capsule'' \<or> CType s = PStr ''Cylinder'' then
            append_Attributes s
              [attr_from data ''RADIUS'' ''RADIUS'',
               attr_from data ''HEIGHT'' ''HEIGHT'']
          else Return () s)"

definition Model_create_attributes :: "Node \<Rightarrow> kwargs option \<Rightarrow> (unit, Node) result" where
  "Model_create_attributes self data =
     assign_Attributes self [attr_from data ''GEOMETRY'' ''GEOMETRY'']"

text \<open>\<open>self.Scenegraph\<close> of a \<open>Reference\<close> instance.\<close>

definition Scenegraph :: "Node \<Rightarrow> pyval" where
  "Scenegraph self = (case payload self of ReferenceV g \<Rightarrow> g | _ \<Rightarrow> PNone)"

definition Reference_create_attributes :: "Node \<Rightarrow> kwargs option \<Rightarrow> (unit, Node) result" where
  "Reference_create_attributes self data =
     assign_Attributes self [Inr (TkSceneNodeAttributeData ''SCENEGRAPH'' (Scenegraph self))]"

text \<open>The class of an instance, and the method that \<open>self.create_attributes(data)\<close> resolves to.\<close>

definition class_of :: "Node \<Rightarrow> cls" where
  "class_of self =
     (case payload self of
        LocatorV _ \<Rightarrow> LocatorC
      | JointV \<Rightarrow> JointC
      | EmitterV \<Rightarrow> EmitterC
      | MeshV _ \<Rightarrow> MeshC
      | CollisionV _ _ \<Rightarrow> CollisionC
      | ModelV _ \<Rightarrow> ModelC
      | ReferenceV _ \<Rightarrow> ReferenceC)"

definition create_attributes :: "Node \<Rightarrow> kwargs option \<Rightarrow> (unit, Node) result" where
  "create_attributes self data =
     (case payload self of
        LocatorV _ \<Rightarrow> Locator_create_attributes self data
      | JointV \<Rightarrow> Joint_create_attributes self data
      | EmitterV \<Rightarrow> Emitter_create_attributes self data
      | MeshV _ \<Rightarrow> Mesh_create_attributes self data
      | CollisionV _ _ \<Rightarrow> Collision_create_attributes self data
      | ModelV _ \<Rightarrow> Model_create_attributes self data
      | ReferenceV _ \<Rightarrow> Reference_create_attributes self data)"

section \<open>Tree assembly\<close>

text \<open>
  Instances refer to each other through \<open>Children\<close>, \<open>Parent\<close> and \<open>ListOfMeshes\<close>, so
  the methods below work on the store. The first argument bounds the depth of nested
  calls: when it is used up the interpreter raises \<open>RecursionError\<close>.
\<close>

definition give_parent :: "heap \<Rightarrow> ref \<Rightarrow> ref \<Rightarrow> heap" where
  "give_parent h self parent = h(self := (h self)\<lparr>Parent := Some parent\<rparr>)"

fun populate_meshlist :: "nat \<Rightarrow> heap \<Rightarrow> ref \<Rightarrow> ref \<Rightarrow> (unit, heap) result" where
  "populate_meshlist 0 h self obj = Raise RecursionError h"
| "populate_meshlist (Suc n) h self obj =
     (case Parent (h self) of
        Some p \<Rightarrow> populate_meshlist n h p obj
      | None \<Rightarrow>
          (case payload (h self) of
             ModelV ms \<Rightarrow> Return () (h(self := (h self)\<lparr>payload := ModelV (ms @ [obj])\<rparr>))
           | _ \<Rightarrow> Raise AttributeError h))"

definition add_child :: "nat \<Rightarrow> heap \<Rightarrow> ref \<Rightarrow> ref \<Rightarrow> (unit, heap) result" where
  "add_child n h self child =
     (let h1 = h(self := (h self)\<lparr>Children := Children (h self) @ [child]\<rparr>);
          h2 = give_parent h1 child self
      in if IsMesh (h2 child) then populate_meshlist n h2 self child else Return () h2)"

section \<open>Building the output records\<close>

definition get_data :: "heap \<Rightarrow> ref \<Rightarrow> TkSceneNodeData option" where
  "get_data h self = NodeData (h self)"

text \<open>
  \<open>construct_data\<close> has no \<open>return\<close> statement, so the value of a call that returns is
  \<open>None\<close>. \<open>construct_children\<close> is the \<open>for\<close> loop over \<open>self.Children\<close>.
\<close>

fun construct_data :: "nat \<Rightarrow> heap \<Rightarrow> ref \<Rightarrow> (TkSceneNodeData option, heap) result"
  and construct_children :: "nat \<Rightarrow> heap \<Rightarrow> ref \<Rightarrow> ref list \<Rightarrow> (unit, heap) result"
where
  "construct_data 0 h self = Raise RecursionError h"
| "construct_data (Suc n) h self =
     (case (if length (Children (h self)) \<noteq> 0
            then construct_children n (h(self := (h self)\<lparr>Child_Nodes := Some []\<rparr>)) self
                   (Children (h self))
            else Return () (h(self := (h self)\<lparr>Child_Nodes := None\<rparr>))) of
        Raise e h1 \<Rightarrow> Raise e h1
      | Return _ h1 \<Rightarrow>
          Return None
            (h1(self := (h1 self)\<lparr>NodeData :=
                  Some (TkSceneNodeData (Name (h1 self)) (Type (h1 self)) (Transform (h1 self))
                          (Attributes (h1 self)) (Child_Nodes (h1 self)))\<rparr>)))"
| "construct_children n h self [] = Return () h"
| "construct_children n h self (child # rest) =
     (case construct_data n h child of
        Raise e h1 \<Rightarrow> Raise e h1
      | Return _ h1 \<Rightarrow>
          (case Child_Nodes (h1 self) of
             None \<Rightarrow> Raise AttributeError h1
           | Some ns \<Rightarrow>
               construct_children n
                 (h1(self := (h1 self)\<lparr>Child_Nodes := Some (ns @ [get_data h1 child])\<rparr>))
                 self rest))"

section \<open>Notions of the specification\<close>

text \<open>The state in which a call ended, whether it returned or raised.\<close>

definition state_of :: "('a, 's) result \<Rightarrow> 's" where
  "state_of r = (case r of Return _ s \<Rightarrow> s | Raise _ s \<Rightarrow> s)"

text \<open>
  The specification's table of attribute schemas (section 4.1), restricted to the keys that
  are read from the external data mapping, in emission order.
\<close>

definition schema_keys :: "Node \<Rightarrow> string list" where
  "schema_keys self =
     (case payload self of
        LocatorV _ \<Rightarrow> [''ATTACHMENT'']
      | JointV \<Rightarrow> [''JOINTINDEX'']
      | EmitterV \<Rightarrow> [''MATERIAL'', ''DATA'']
      | MeshV _ \<Rightarrow>
          [''BATCHSTART'', ''BATCHCOUNT'', ''VERTRSTART'', ''VERTREND'', ''MATERIAL'',
           ''ATTACHMENT'']
      | ModelV _ \<Rightarrow> [''GEOMETRY'']
      | ReferenceV _ \<Rightarrow> []
      | CollisionV t _ \<Rightarrow>
          if t = PStr ''Mesh'' then [''BATCHSTART'', ''BATCHCOUNT'', ''VERTRSTART'', ''VERTREND'']
          else if t = PStr ''Box'' then [''WIDTH'', ''HEIGHT'', ''DEPTH'']
          else if t = PStr ''Sphere'' then [''RADIUS'']
          else if t = PStr ''Capsule'' \<or> t = PStr ''Cylinder'' then [''RADIUS'', ''HEIGHT'']
          else [])"

text \<open>The first key of a list that a mapping lacks.\<close>

fun first_missing :: "kwargs \<Rightarrow> string list \<Rightarrow> string option" where
  "first_missing d [] = None"
| "first_missing d (k # ks) = (if d k = None then Some k else first_missing d ks)"

text \<open>
  The parent-reference chain of a node: the nodes met when following \<open>Parent\<close> from \<open>x\<close>
  up to the first parentless node, if there is one within \<open>n\<close> steps.
\<close>

fun parent_chain :: "nat \<Rightarrow> heap \<Rightarrow> ref \<Rightarrow> ref list option" where
  "parent_chain 0 h x = None"
| "parent_chain (Suc n) h x =
     (case Parent (h x) of
        None \<Rightarrow> Some [x]
      | Some p \<Rightarrow> map_option ((#) x) (parent_chain n h p))"

text \<open>\<open>self.ListOfMeshes\<close>, where \<open>None\<close> says that the instance has no such attribute.\<close>

definition ListOfMeshes :: "Node \<Rightarrow> ref list option" where
  "ListOfMeshes self = (case payload self of ModelV ms \<Rightarrow> Some ms | _ \<Rightarrow> None)"

text \<open>
  A sequence of calls \<open>p.add_child(c)\<close>, made one after the other; the first call that
  raises ends the sequence.
\<close>

fun add_children :: "nat \<Rightarrow> heap \<Rightarrow> (ref \<times> ref) list \<Rightarrow> (unit, heap) result" where
  "add_children n h [] = Return () h"
| "add_children n h ((p, c) # cs) =
     (case add_child n h p c of
        Raise e h' \<Rightarrow> Raise e h'
      | Return _ h' \<Rightarrow> add_children n h' cs)"

text \<open>
  The condition on a sequence of calls under which registrations are never left behind:
  whenever a call attaches a mesh-bearing child, the parent's chain ends, within the call
  depth and without passing through the child, at a node that has a registry, and no later
  call of the sequence attaches that node as a child. The store is the one in which the
  call is made.
\<close>

fun registers_at_final_roots :: "nat \<Rightarrow> heap \<Rightarrow> (ref \<times> ref) list \<Rightarrow> bool" where
  "registers_at_final_roots n h [] = True"
| "registers_at_final_roots n h ((p, c) # cs) =
     ((if IsMesh (h c)
       then (case parent_chain n h p of
               None \<Rightarrow> False
             | Some ch \<Rightarrow> c \<notin> set ch \<and> ListOfMeshes (h (last ch)) \<noteq> None
                          \<and> last ch \<notin> snd ` set cs)
       else True)
      \<and> registers_at_final_roots n (state_of (add_child n h p c)) cs)"

text \<open>The child relation of a store, the nodes below a node, and the nodes at or below it.\<close>

definition children_rel :: "heap \<Rightarrow> (ref \<times> ref) set" where
  "children_rel h = {(p, c). c \<in> set (Children (h p))}"

definition descendants :: "heap \<Rightarrow> ref \<Rightarrow> ref set" where
  "descendants h r = {x. (r, x) \<in> (children_rel h)\<^sup>+}"

definition reach :: "heap \<Rightarrow> ref \<Rightarrow> ref set" where
  "reach h x = {y. (x, y) \<in> (children_rel h)\<^sup>*}"

text \<open>
  The registry of \<open>r\<close> holds exactly the mesh-bearing nodes below \<open>r\<close>, each of them once.
\<close>

definition mesh_registry_exact :: "heap \<Rightarrow> ref \<Rightarrow> bool" where
  "mesh_registry_exact h r =
     (\<exists>ms. ListOfMeshes (h r) = Some ms \<and> distinct ms
        \<and> set ms = {x \<in> descendants h r. IsMesh (h x)})"

text \<open>
  The state of the nodes \<open>N\<close> during assembly, \<open>dn\<close> being the children attached so far in
  the order of their calls and \<open>later\<close> those that the remaining calls attach: \<open>r\<close> is
  parentless; \<open>Parent\<close> and \<open>Children\<close> agree with each other; a node that was not attached
  has no parent; every attached mesh-bearing node is in the registry of the node where its
  chain ends, and that node is not attached later; the registry of \<open>r\<close> lists attached
  mesh-bearing nodes below \<open>r\<close> in the order of their calls.
\<close>

definition assembling :: "ref set \<Rightarrow> heap \<Rightarrow> ref \<Rightarrow> ref list \<Rightarrow> ref set \<Rightarrow> bool" where
  "assembling N h r dn later =
     (r \<in> N \<and> Parent (h r) = None
      \<and> (\<forall>x \<in> N. \<forall>q. Parent (h x) = Some q \<longrightarrow> q \<in> N \<and> x \<in> set (Children (h q)))
      \<and> (\<forall>y \<in> N. \<forall>x \<in> set (Children (h y)). x \<in> N \<and> x \<in> set dn \<and> Parent (h x) = Some y)
      \<and> (\<forall>x \<in> N. x \<notin> set dn \<longrightarrow> Parent (h x) = None)
      \<and> (\<forall>c \<in> set dn. IsMesh (h c) \<longrightarrow>
            (\<exists>k ch ms. parent_chain k h c = Some ch \<and> last ch \<notin> later
                \<and> ListOfMeshes (h (last ch)) = Some ms \<and> c \<in> set ms))
      \<and> (\<exists>ms. ListOfMeshes (h r) = Some ms \<and> ms = filter (\<lambda>c. c \<in> set ms) dn
            \<and> (\<forall>c \<in> set ms. IsMesh (h c) \<and> (r, c) \<in> (children_rel h)\<^sup>+)))"

text \<open>
  The record that \<open>construct_data\<close> stores for a node, as a function of the tree alone;
  \<open>None\<close> when the call depth \<open>n\<close> does not suffice for the subtree of the node.
\<close>

fun record_of :: "nat \<Rightarrow> heap \<Rightarrow> ref \<Rightarrow> TkSceneNodeData option" where
  "record_of 0 h x = None"
| "record_of (Suc n) h x =
     (if Children (h x) = []
      then Some (TkSceneNodeData (Name (h x)) (Type (h x)) (Transform (h x)) (Attributes (h x)) None)
      else if list_all (\<lambda>c. record_of n h c \<noteq> None) (Children (h x))
      then Some (TkSceneNodeData (Name (h x)) (Type (h x)) (Transform (h x)) (Attributes (h x))
                   (Some (map (record_of n h) (Children (h x)))))
      else None)"

text \<open>
  The store in which every node of \<open>S\<close> holds its record and the children list of that
  record.
\<close>

definition stamp :: "nat \<Rightarrow> heap \<Rightarrow> ref set \<Rightarrow> heap" where
  "stamp n h S =
     (\<lambda>y. if y \<in> S
          then (case record_of n h y of
                  Some d \<Rightarrow> (h y)\<lparr>NodeData := Some d, Child_Nodes := nd_Children d\<rparr>
                | None \<Rightarrow> h y)
          else h y)"

text \<open>Two stores that differ at most in \<open>NodeData\<close> and \<open>Child_Nodes\<close>.\<close>

definition same_tree :: "heap \<Rightarrow> heap \<Rightarrow> bool" where
  "same_tree h g = (\<forall>y. (g y)\<lparr>NodeData := None, Child_Nodes := None\<rparr>
                        = (h y)\<lparr>NodeData := None, Child_Nodes := None\<rparr>)"

text \<open>
  The store inside the loop of \<open>construct_data\<close> on \<open>x\<close>, when the children \<open>pre\<close> have
  been processed.
\<close>

definition building :: "nat \<Rightarrow> heap \<Rightarrow> ref \<Rightarrow> ref list \<Rightarrow> heap" where
  "building n h x pre =
     (stamp n h (\<Union>c \<in> set pre. reach h c))
       (x := (h x)\<lparr>Child_Nodes := Some (map (record_of n h) pre)\<rparr>)"


text \<open>The value a call returned, if it returned, and whether it returned.\<close>

definition return_value :: "('a, 's) result \<Rightarrow> 'a option" where
  "return_value r = (case r of Return v _ \<Rightarrow> Some v | Raise _ _ \<Rightarrow> None)"

definition is_Return :: "('a, 's) result \<Rightarrow> bool" where
  "is_Return r = (case r of Return _ _ \<Rightarrow> True | Raise _ _ \<Rightarrow> False)"

section \<open>Example objects\<close>

text \<open>
  The nodes that \<open>Locator("L1")\<close>, \<open>Mesh("M1")\<close>, \<open>Model("Root")\<close> and \<open>Model("Sub")\<close>
  construct, and stores that hold them.
\<close>

definition locator_L1 :: Node where
  "locator_L1 = instance_of (Object_init Map.empty) ''L1'' ''LOCATOR'' (LocatorV (PBool False))"

definition mesh_M1 :: Node where
  "mesh_M1 =
     (instance_of (Object_init Map.empty) ''M1'' ''MESH''
        (MeshV \<lparr> Vertices = PNone, Indexes = PNone, Material = TkMaterialData ''EMPTY'',
                 UVs = PNone, Normals = PNone, Tangents = PNone \<rparr>))
     \<lparr>IsMesh := True\<rparr>"

definition model_Root :: Node where
  "model_Root = instance_of (Object_init Map.empty) ''Root'' ''MODEL'' (ModelV [])"

text \<open>A store with the locator everywhere but at address 1, where the mesh is.\<close>

definition store_L1_M1 :: heap where
  "store_L1_M1 = (\<lambda>_. locator_L1)(1 := mesh_M1)"

definition model_Sub :: Node where
  "model_Sub = instance_of (Object_init Map.empty) ''Sub'' ''MODEL'' (ModelV [])"

text \<open>A store with a locator at every address.\<close>

definition store_L1 :: heap where
  "store_L1 = (\<lambda>_. locator_L1)"

text \<open>Newly constructed nodes: two models at 0 and 1, a mesh at 2.\<close>

definition store_nested :: heap where
  "store_nested = (\<lambda>_. locator_L1)(0 := model_Root, 1 := model_Sub, 2 := mesh_M1)"

text \<open>The mesh attached to the second model, then the second model attached to the first.\<close>

definition store_nested_built :: heap where
  "store_nested_built = state_of (add_children 3 store_nested [(1, 2), (0, 1)])"

text \<open>Newly constructed nodes: a model at 0, locators at 1 and 2, meshes at 3 and 4.\<close>

definition store_mixed :: heap where
  "store_mixed = (\<lambda>_. locator_L1)(0 := model_Root, 3 := mesh_M1, 4 := mesh_M1)"

text \<open>The tree of a model at 0 with the children mesh (at 1) and locator (at 2).\<close>

definition store_tree :: heap where
  "store_tree =
     (\<lambda>_. locator_L1)
       (0 := model_Root\<lparr>Children := [1, 2], payload := ModelV [1]\<rparr>,
        1 := mesh_M1\<lparr>Parent := Some 0\<rparr>,
        2 := locator_L1\<lparr>Parent := Some 0\<rparr>)"

definition record_L1 :: TkSceneNodeData where
  "record_L1 = TkSceneNodeData ''L1'' ''LOCATOR'' TkTransformData None None"

definition record_M1 :: TkSceneNodeData where
  "record_M1 = TkSceneNodeData ''M1'' ''MESH'' TkTransformData None None"

definition record_Root :: TkSceneNodeData where
  "record_Root = TkSceneNodeData ''Root'' ''MODEL'' TkTransformData None
                   (Some [Some record_M1, Some record_L1])"

text \<open>The store after \<open>construct_data\<close> on the root of the tree.\<close>

definition store_tree_built :: heap where
  "store_tree_built =
       store_tree
          (1 := mesh_M1\<lparr>Parent := Some 0, Child_Nodes := None, NodeData := Some record_M1\<rparr>,
           2 := locator_L1\<lparr>Parent := Some 0, Child_Nodes := None, NodeData := Some record_L1\<rparr>,
           0 := model_Root\<lparr>Children := [1, 2], payload := ModelV [1],
                  Child_Nodes := Some [Some record_M1, Some record_L1],
                  NodeData := Some record_Root\<rparr>)"

section \<open>Properties of the constructors\<close>

lemma super_init_own: "c \<noteq> ObjectC \<Longrightarrow> super_init c c kw = Inr (Object_init kw)"
  by (simp add: super_init_def py_super_def mro_def)

lemma Locator_init_L1: "Locator_init ''L1'' Map.empty = Inr locator_L1"
  by (simp add: Locator_init_def super_init_own locator_L1_def dict_get_def)

lemma Model_init_Root: "Model_init ''Root'' Map.empty = Inr model_Root"
  by (simp add: Model_init_def super_init_own model_Root_def)

lemma Model_init_Sub: "Model_init ''Sub'' Map.empty = Inr model_Sub"
  by (simp add: Model_init_def super_init_own model_Sub_def)

lemma Mesh_init_M1: "Mesh_init ''M1'' Map.empty = Inr mesh_M1"
  by (simp add: Mesh_init_def super_init_own mesh_M1_def dict_get_def
      determine_included_streams_def stream_names_def self_dict_get_def mesh_data_get_def
      instance_of_def)

lemma constructors_succeed:
  "(\<exists>self. Construct LocatorC n kw = Inr self \<and> class_of self = LocatorC \<and> Type self = ''LOCATOR'')
   \<and> (\<exists>self. Construct MeshC n kw = Inr self \<and> class_of self = MeshC \<and> Type self = ''MESH'')
   \<and> (\<exists>self. Construct ModelC n kw = Inr self \<and> class_of self = ModelC \<and> Type self = ''MODEL'')
   \<and> (\<exists>self. Construct ReferenceC n kw = Inr self \<and> class_of self = ReferenceC
          \<and> Type self = ''REFERENCE'')"
  by (simp add: Locator_init_def Mesh_init_def Model_init_def Reference_init_def super_init_own
      class_of_def instance_of_def determine_included_streams_def stream_names_def)

text \<open>
  Claim C2. Constructing a node of any of the seven variants succeeds and gives a node with
  the type tag of the variant; in particular a \<open>Joint\<close> or an \<open>Emitter\<close> is created with
  type \<open>JOINT\<close> or \<open>EMITTER\<close>. The code does not do this: \<open>Joint.__init__\<close> and
  \<open>Emitter.__init__\<close> call \<open>super(Locator, self)\<close>, and since neither class derives from
  \<open>Locator\<close> the call raises \<open>TypeError\<close> before any attribute is assigned, for every
  name and every keyword arguments.
\<close>

theorem Joint_Emitter_init_raise:
  "Construct JointC n kw = Inl TypeError \<and> Construct EmitterC n kw = Inl TypeError"
  by (simp add: Joint_init_def Emitter_init_def super_init_def py_super_def mro_def)

lemma self_dict_get_streams [simp]:
  "self_dict_get (s\<lparr>provided_streams := X\<rparr>) name = self_dict_get s name"
  by (simp add: self_dict_get_def)

lemma fold_streams:
  "provided_streams (fold (\<lambda>name s.
             if self_dict_get s name \<noteq> PNone
             then s\<lparr>provided_streams := provided_streams s \<union> {name}\<rparr>
             else s) names s) = provided_streams s \<union> {name \<in> set names. self_dict_get s name \<noteq> PNone}
   \<and> self_dict_get (fold (\<lambda>name s.
             if self_dict_get s name \<noteq> PNone
             then s\<lparr>provided_streams := provided_streams s \<union> {name}\<rparr>
             else s) names s) = self_dict_get s"
proof (induction names arbitrary: s)
  case Nil
  show ?case by simp
next
  case (Cons a names)
  show ?case
    apply (simp only: fold_simps)
    apply (cases "self_dict_get s a \<noteq> PNone")
     apply (simp_all add: Cons.IH fun_eq_iff)
     apply blast+
    done
qed

lemma dis_streams:
  "provided_streams (determine_included_streams s) =
     provided_streams s \<union> {name \<in> set stream_names. self_dict_get s name \<noteq> PNone}"
  unfolding determine_included_streams_def by (rule fold_streams [THEN conjunct1])

lemma mesh_data_get_kw:
  assumes "name \<in> set stream_names"
  shows "mesh_data_get \<lparr> Vertices = dict_get kw ''Vertices'' PNone,
                          Indexes = dict_get kw ''Indexes'' PNone,
                          Material = mat,
                          UVs = dict_get kw ''UVs'' PNone,
                          Normals = dict_get kw ''Normals'' PNone,
                          Tangents = dict_get kw ''Tangents'' PNone \<rparr> name = dict_get kw name PNone"
proof -
  have "name = ''Vertices'' \<or> name = ''Indexes'' \<or> name = ''UVs''
    \<or> name = ''Normals'' \<or> name = ''Tangents''"
    using assms by (simp add: stream_names_def)
  then show ?thesis
    apply (elim disjE)
        apply (simp add: mesh_data_get_def)
        apply (simp add: mesh_data_get_def)
        apply (simp add: mesh_data_get_def)
        apply (simp add: mesh_data_get_def)
        apply (simp add: mesh_data_get_def)
    done
qed

lemma dict_get_nonnull: "dict_get kw name PNone \<noteq> PNone \<longleftrightarrow> (\<exists>v. kw name = Some v \<and> v \<noteq> PNone)"
  by (simp add: dict_get_def split: option.splits)

lemma Collect_set_Cons:
  "{s \<in> set (x # xs). P s} = (if P x then {x} else {}) \<union> {s \<in> set xs. P s}"
  by auto

text \<open>
  Claim C5. Constructing a \<open>Mesh\<close> never raises, and right after construction
  \<open>provided_streams\<close> is exactly the set of those of the five stream names whose keyword
  argument was supplied with a value other than \<open>None\<close>.
\<close>

theorem Mesh_provided_streams: "\<exists>self. Mesh_init n kw = Inr self \<and>
   provided_streams self = {s \<in> set stream_names. \<exists>v. kw s = Some v \<and> v \<noteq> PNone}"
proof -
  define m where "m = \<lparr> Vertices = dict_get kw ''Vertices'' PNone,
                              Indexes = dict_get kw ''Indexes'' PNone,
                              Material = dict_get kw ''Material'' (TkMaterialData ''EMPTY''),
                              UVs = dict_get kw ''UVs'' PNone,
                              Normals = dict_get kw ''Normals'' PNone,
                              Tangents = dict_get kw ''Tangents'' PNone \<rparr>"
  define s where "s = (instance_of (Object_init kw) n ''MESH'' (MeshV m))\<lparr>IsMesh := True\<rparr>"
  have init: "Mesh_init n kw = Inr (determine_included_streams s)"
    by (simp add: Mesh_init_def super_init_own s_def m_def)
  have ps: "provided_streams s = {}"
    by (simp add: s_def instance_of_def Object_init_def)
  have sd: "self_dict_get s name = mesh_data_get m name" for name
    by (simp add: s_def self_dict_get_def instance_of_def)
  have "(name \<in> set stream_names \<and> self_dict_get s name \<noteq> PNone)
      = (name \<in> set stream_names \<and> (\<exists>v. kw name = Some v \<and> v \<noteq> PNone))" for name
    using mesh_data_get_kw [of name kw] dict_get_nonnull [of kw name]
    unfolding sd m_def by metis
  then have "{name \<in> set stream_names. self_dict_get s name \<noteq> PNone}
      = {name \<in> set stream_names. \<exists>v. kw name = Some v \<and> v \<noteq> PNone}"
    by simp
  then show ?thesis
    unfolding init by (simp add: dis_streams ps)
qed

theorem Mesh_provided_streams_witness:
  "\<exists>self. Mesh_init ''M1'' [''Vertices'' \<mapsto> PSeq [PFloat 0], ''Indexes'' \<mapsto> PSeq [PInt 0]] = Inr self
     \<and> provided_streams self = {''Vertices'', ''Indexes''}"
proof -
  have "{s \<in> set stream_names.
          \<exists>v. [''Vertices'' \<mapsto> PSeq [PFloat 0], ''Indexes'' \<mapsto> PSeq [PInt 0]] s = Some v \<and> v \<noteq> PNone}
     = {''Vertices'', ''Indexes''}"
    unfolding stream_names_def Collect_set_Cons by (simp add: insert_commute)
  then show ?thesis
    using Mesh_provided_streams
      [of "''M1''" "[''Vertices'' \<mapsto> PSeq [PFloat 0], ''Indexes'' \<mapsto> PSeq [PInt 0]]"]
    by simp
qed

section \<open>Properties of attribute assembly\<close>

lemma first_missing_Some: "first_missing d ks = Some k \<Longrightarrow> k \<in> set ks \<and> d k = None"
  by (induction ks) (simp_all split: if_splits)

lemma first_missing_None: "first_missing d ks = None \<longleftrightarrow> (\<forall>k \<in> set ks. d k \<noteq> None)"
  by (induction ks) simp_all

lemma attr_from_Some:
  "attr_from (Some d) n k = (case d k of None \<Rightarrow> Inl (KeyError k) | Some v \<Rightarrow> Inr (TkSceneNodeAttributeData n v))"
  by (simp add: attr_from_def getitem_def split: option.splits)

lemma Locator_missing:
  "payload self = LocatorV a \<Longrightarrow> first_missing d (schema_keys self) = Some k \<Longrightarrow>
     create_attributes self (Some d) = Raise (KeyError k) self"
  by (simp add: create_attributes_def schema_keys_def Locator_create_attributes_def
      assign_Attributes_def attr_from_Some split: option.splits if_splits)

lemma Joint_missing:
  "payload self = JointV \<Longrightarrow> first_missing d (schema_keys self) = Some k \<Longrightarrow>
     create_attributes self (Some d) = Raise (KeyError k) self"
  by (simp add: create_attributes_def schema_keys_def Joint_create_attributes_def
      assign_Attributes_def attr_from_Some split: option.splits if_splits)

lemma Emitter_missing:
  "payload self = EmitterV \<Longrightarrow> first_missing d (schema_keys self) = Some k \<Longrightarrow>
     create_attributes self (Some d) = Raise (KeyError k) self"
  by (simp add: create_attributes_def schema_keys_def Emitter_create_attributes_def
      assign_Attributes_def attr_from_Some split: option.splits if_splits)

lemma Model_missing:
  "payload self = ModelV ms \<Longrightarrow> first_missing d (schema_keys self) = Some k \<Longrightarrow>
     create_attributes self (Some d) = Raise (KeyError k) self"
  by (simp add: create_attributes_def schema_keys_def Model_create_attributes_def
      assign_Attributes_def attr_from_Some split: option.splits if_splits)

lemma Mesh_missing:
  "payload self = MeshV m \<Longrightarrow> first_missing d (schema_keys self) = Some k \<Longrightarrow>
     create_attributes self (Some d) = Raise (KeyError k) self"
  by (simp add: create_attributes_def schema_keys_def Mesh_create_attributes_def
      assign_Attributes_def attr_from_Some split: option.splits if_splits)

lemma Collision_create_attributes_unfold:
  "payload self = CollisionV t g \<Longrightarrow>
   create_attributes self data =
     (let s = self\<lparr>Attributes := Some [TkSceneNodeAttributeData ''TYPE'' t]\<rparr> in
      if t = PStr ''Mesh'' then
            append_Attributes s
              [attr_from data ''BATCHSTART'' ''BATCHSTART'',
               attr_from data ''BATCHCOUNT'' ''BATCHCOUNT'',
               attr_from data ''VERTRSTART'' ''VERTRSTART'',
               attr_from data ''VERTREND'' ''VERTREND'',
               Inr (TkSceneNodeAttributeData ''FIRSTSKINMAT'' (PInt 0)),
               Inr (TkSceneNodeAttributeData ''LASTSKINMAT'' (PInt 0))]
          else if t = PStr ''Box'' then
            append_Attributes s
              [attr_from data ''WIDTH'' ''WIDTH'',
               attr_from data ''HEIGHT'' ''HEIGHT'',
               attr_from data ''DEPTH'' ''DEPTH'']
          else if t = PStr ''Sphere'' then
            append_Attributes s [attr_from data ''RADIUS'' ''RADIUS'']
          else if t = PStr ''Capsule'' \<or> t = PStr ''Cylinder'' then
            append_Attributes s
              [attr_from data ''RADIUS'' ''RADIUS'',
               attr_from data ''HEIGHT'' ''HEIGHT'']
          else Return () s)"
  by (simp add: create_attributes_def Collision_create_attributes_def CType_def
      assign_Attributes_def Let_def)

lemma append_Attributes_keys:
  "Attributes s \<noteq> None \<Longrightarrow> first_missing d ks = Some k \<Longrightarrow>
   \<exists>s'. append_Attributes s (map (\<lambda>k. attr_from (Some d) k k) ks @ rest) = Raise (KeyError k) s'"
proof (induction ks arbitrary: s)
  case Nil
  then show ?case by simp
next
  case (Cons a ks)
  show ?case
  proof (cases "d a")
    case None
    with Cons.prems show ?thesis by (simp add: attr_from_Some)
  next
    case (Some v)
    with Cons.prems have fm: "first_missing d ks = Some k" by simp
    from Cons.prems(1) obtain as where as: "Attributes s = Some as" by blast
    have "Attributes (s\<lparr>Attributes := Some (as @ [TkSceneNodeAttributeData a v])\<rparr>) \<noteq> None"
      by simp
    from Cons.IH [OF this fm] show ?thesis
      by (simp add: attr_from_Some Some as)
  qed
qed

lemma Collision_missing:
  assumes "payload self = CollisionV t g" and "first_missing d (schema_keys self) = Some k"
  shows "\<exists>s. create_attributes self (Some d) = Raise (KeyError k) s"
proof -
  let ?s = "self\<lparr>Attributes := Some [TkSceneNodeAttributeData ''TYPE'' t]\<rparr>"
  have a: "Attributes ?s \<noteq> None" by simp
  consider "t = PStr ''Mesh''" | "t = PStr ''Box''" | "t = PStr ''Sphere''"
    | "t = PStr ''Capsule'' \<or> t = PStr ''Cylinder''"
    | "t \<noteq> PStr ''Mesh''" "t \<noteq> PStr ''Box''" "t \<noteq> PStr ''Sphere''" "t \<noteq> PStr ''Capsule''" "t \<noteq> PStr ''Cylinder''"
    by blast
  then show ?thesis
  proof cases
    case 1
    with assms have "first_missing d [''BATCHSTART'', ''BATCHCOUNT'', ''VERTRSTART'', ''VERTREND''] = Some k"
      by (simp add: schema_keys_def)
    from append_Attributes_keys [OF a this] show ?thesis
      by (simp add: Collision_create_attributes_unfold [OF assms(1)] 1)
  next
    case 2
    with assms have "first_missing d [''WIDTH'', ''HEIGHT'', ''DEPTH''] = Some k"
      by (simp add: schema_keys_def)
    from append_Attributes_keys [OF a this, of "[]"] show ?thesis
      by (simp add: Collision_create_attributes_unfold [OF assms(1)] 2)
  next
    case 3
    with assms have "first_missing d [''RADIUS''] = Some k"
      by (simp add: schema_keys_def)
    from append_Attributes_keys [OF a this, of "[]"] show ?thesis
      by (simp add: Collision_create_attributes_unfold [OF assms(1)] 3)
  next
    case 4
    with assms(1) have keys: "schema_keys self = [''RADIUS'', ''HEIGHT'']"
      by (auto simp add: schema_keys_def)
    from append_Attributes_keys [OF a assms(2) [unfolded keys], of "[]"] 4 show ?thesis
      by (auto simp add: Collision_create_attributes_unfold [OF assms(1)])
  next
    case 5
    with assms show ?thesis
      by (simp add: schema_keys_def)
  qed
qed

lemma Reference_no_keys: "payload self = ReferenceV g \<Longrightarrow> schema_keys self = []"
  by (simp add: schema_keys_def)

text \<open>
  Claim C7. When the data mapping passed to \<open>create_attributes\<close> lacks a key that the
  schema of the node's variant requires, the call raises \<open>KeyError\<close> for a required key
  that is missing (the first one in emission order); the error reaches the caller, nothing
  in the method catches it.
\<close>

theorem create_attributes_missing_key:
  assumes "k \<in> set (schema_keys self)" and "d k = None"
  shows "\<exists>k' s. create_attributes self (Some d) = Raise (KeyError k') s
            \<and> k' \<in> set (schema_keys self) \<and> d k' = None"
proof -
  from assms have "first_missing d (schema_keys self) \<noteq> None"
    by (auto simp: first_missing_None)
  then obtain k' where fm: "first_missing d (schema_keys self) = Some k'"
    by blast
  then have k': "k' \<in> set (schema_keys self) \<and> d k' = None"
    by (rule first_missing_Some)
  have "\<exists>s. create_attributes self (Some d) = Raise (KeyError k') s"
  proof (cases "payload self")
    case (LocatorV a) with fm show ?thesis by (simp add: Locator_missing)
  next
    case JointV with fm show ?thesis by (simp add: Joint_missing)
  next
    case EmitterV with fm show ?thesis by (simp add: Emitter_missing)
  next
    case (MeshV m) with fm show ?thesis by (simp add: Mesh_missing)
  next
    case (CollisionV t g) with fm show ?thesis by (simp add: Collision_missing)
  next
    case (ModelV ms) with fm show ?thesis by (simp add: Model_missing)
  next
    case (ReferenceV g) with assms(1) show ?thesis by (simp add: Reference_no_keys)
  qed
  with k' show ?thesis by blast
qed

lemma collision_box: "Collision_init ''C1'' [''CollisionType'' \<mapsto> PStr ''Box'']
   = Inr (instance_of (Object_init [''CollisionType'' \<mapsto> PStr ''Box'']) ''C1'' ''COLLISION''
       (CollisionV (PStr ''Box'') (PrimAttrs \<lparr> Width = PInt 0, Height = PInt 0, Depth = PInt 0, Radius = PInt 0 \<rparr>)))"
  by (simp add: Collision_init_def super_init_def py_super_def mro_def dict_get_def Let_def)

theorem create_attributes_missing_key_witness:
  "\<exists>self. Collision_init ''C1'' [''CollisionType'' \<mapsto> PStr ''Box''] = Inr self
     \<and> (\<exists>s. create_attributes self (Some [''HEIGHT'' \<mapsto> PFloat 1, ''DEPTH'' \<mapsto> PFloat 2])
            = Raise (KeyError ''WIDTH'') s)"
proof -
  let ?self = "instance_of (Object_init [''CollisionType'' \<mapsto> PStr ''Box'']) ''C1'' ''COLLISION''
       (CollisionV (PStr ''Box'') (PrimAttrs \<lparr> Width = PInt 0, Height = PInt 0, Depth = PInt 0, Radius = PInt 0 \<rparr>))"
  let ?d = "[''HEIGHT'' \<mapsto> PFloat 1, ''DEPTH'' \<mapsto> PFloat 2]"
  have keys: "schema_keys ?self = [''WIDTH'', ''HEIGHT'', ''DEPTH'']"
    by (simp add: schema_keys_def instance_of_def)
  have "''WIDTH'' \<in> set (schema_keys ?self)" "?d ''WIDTH'' = None"
    by (simp_all add: keys)
  with create_attributes_missing_key [of "''WIDTH''" ?self ?d] obtain k' s where
    r: "create_attributes ?self (Some ?d) = Raise (KeyError k') s"
    and k': "k' \<in> set (schema_keys ?self)" "?d k' = None"
    by blast
  from k' have "k' = ''WIDTH''"
    unfolding keys by (simp split: if_splits)
  with r collision_box show ?thesis by simp
qed

lemma append_Attributes_head:
  "Attributes s = Some (a # as) \<Longrightarrow>
     \<exists>rest. Attributes (state_of (append_Attributes s xs)) = Some (a # rest)"
proof (induction s xs arbitrary: as rule: append_Attributes.induct)
  case (1 self)
  then show ?case by (simp add: state_of_def)
next
  case (2 self e xs)
  then show ?case by (simp add: state_of_def)
next
  case (3 self x xs)
  from "3.prems" have "Attributes (self\<lparr>Attributes := Some ((a # as) @ [x])\<rparr>) = Some (a # (as @ [x]))"
    by simp
  from "3.IH" [OF "3.prems" this] "3.prems" show ?case by simp
qed

lemma Collision_create_attributes_appends:
  assumes "payload self = CollisionV t g"
  shows "\<exists>xs. create_attributes self data =
           append_Attributes (self\<lparr>Attributes := Some [TkSceneNodeAttributeData ''TYPE'' t]\<rparr>) xs"
proof -
  have ex_if: "\<exists>xs. (if c then A else B) = f xs"
    if "\<exists>xs. A = f xs" and "\<exists>xs. B = f xs"
    for c and A B :: "(unit, Node) result" and f :: "(error + TkSceneNodeAttributeData) list \<Rightarrow> _"
    using that by simp
  have last: "\<exists>xs. Return () s = append_Attributes s xs" for s
    by (rule exI [of _ "[]"]) simp
  show ?thesis
    unfolding Collision_create_attributes_unfold [OF assms] Let_def
    by (intro ex_if last) blast+
qed

lemma Collision_TYPE_first:
  assumes "payload self = CollisionV t g"
  shows "\<exists>rest. Attributes (state_of (create_attributes self data))
                  = Some (TkSceneNodeAttributeData ''TYPE'' t # rest)"
proof -
  let ?s = "self\<lparr>Attributes := Some [TkSceneNodeAttributeData ''TYPE'' t]\<rparr>"
  have a: "Attributes ?s = Some (TkSceneNodeAttributeData ''TYPE'' t # [])" by simp
  from Collision_create_attributes_appends [OF assms] obtain xs
    where "create_attributes self data = append_Attributes ?s xs" by blast
  with append_Attributes_head [OF a, of xs] show ?thesis by simp
qed

lemma Collision_Mesh_attributes:
  assumes "payload self = CollisionV (PStr ''Mesh'') g"
    and "d ''BATCHSTART'' = Some b" and "d ''BATCHCOUNT'' = Some c"
    and "d ''VERTRSTART'' = Some vs" and "d ''VERTREND'' = Some ve"
  shows "create_attributes self (Some d) = Return () (self\<lparr>Attributes := Some
           [TkSceneNodeAttributeData ''TYPE'' (PStr ''Mesh''),
            TkSceneNodeAttributeData ''BATCHSTART'' b,
            TkSceneNodeAttributeData ''BATCHCOUNT'' c,
            TkSceneNodeAttributeData ''VERTRSTART'' vs,
            TkSceneNodeAttributeData ''VERTREND'' ve,
            TkSceneNodeAttributeData ''FIRSTSKINMAT'' (PInt 0),
            TkSceneNodeAttributeData ''LASTSKINMAT'' (PInt 0)]\<rparr>)"
  using assms(2-)
  by (simp add: Collision_create_attributes_unfold [OF assms(1)] attr_from_Some)

lemma Collision_Box_attributes:
  assumes "payload self = CollisionV (PStr ''Box'') g"
    and "d ''WIDTH'' = Some w" and "d ''HEIGHT'' = Some ht" and "d ''DEPTH'' = Some dp"
  shows "create_attributes self (Some d) = Return () (self\<lparr>Attributes := Some
           [TkSceneNodeAttributeData ''TYPE'' (PStr ''Box''),
            TkSceneNodeAttributeData ''WIDTH'' w,
            TkSceneNodeAttributeData ''HEIGHT'' ht,
            TkSceneNodeAttributeData ''DEPTH'' dp]\<rparr>)"
  using assms(2-)
  by (simp add: Collision_create_attributes_unfold [OF assms(1)] attr_from_Some)

lemma Collision_Sphere_attributes:
  assumes "payload self = CollisionV (PStr ''Sphere'') g"
    and "d ''RADIUS'' = Some r"
  shows "create_attributes self (Some d) = Return () (self\<lparr>Attributes := Some
           [TkSceneNodeAttributeData ''TYPE'' (PStr ''Sphere''),
            TkSceneNodeAttributeData ''RADIUS'' r]\<rparr>)"
  using assms(2-)
  by (simp add: Collision_create_attributes_unfold [OF assms(1)] attr_from_Some)

lemma Collision_Capsule_attributes:
  assumes "payload self = CollisionV t g" and "t = PStr ''Capsule'' \<or> t = PStr ''Cylinder''"
    and "d ''RADIUS'' = Some r" and "d ''HEIGHT'' = Some ht"
  shows "create_attributes self (Some d) = Return () (self\<lparr>Attributes := Some
           [TkSceneNodeAttributeData ''TYPE'' t,
            TkSceneNodeAttributeData ''RADIUS'' r,
            TkSceneNodeAttributeData ''HEIGHT'' ht]\<rparr>)"
  using assms(2-)
  by (auto simp add: Collision_create_attributes_unfold [OF assms(1)] attr_from_Some)

text \<open>
  Claim C6. For a \<open>Collision\<close> node, \<open>create_attributes\<close> first emits the pair
  (\<open>TYPE\<close>, sub-type), which is there however the call ends, and then, for data that
  carries the keys, exactly the pairs of the sub-type in the order of the schema:
  \<open>BATCHSTART\<close>, \<open>BATCHCOUNT\<close>, \<open>VERTRSTART\<close>, \<open>VERTREND\<close>, \<open>FIRSTSKINMAT\<close> = 0,
  \<open>LASTSKINMAT\<close> = 0 for \<open>Mesh\<close>; \<open>WIDTH\<close>, \<open>HEIGHT\<close>, \<open>DEPTH\<close> for \<open>Box\<close>;
  \<open>RADIUS\<close> for \<open>Sphere\<close>; \<open>RADIUS\<close>, \<open>HEIGHT\<close> for \<open>Capsule\<close> and \<open>Cylinder\<close>.
\<close>

theorem Collision_create_attributes_schema:
  assumes "payload self = CollisionV t g"
  shows "(\<exists>rest. Attributes (state_of (create_attributes self data))
                  = Some (TkSceneNodeAttributeData ''TYPE'' t # rest))
    \<and> (t = PStr ''Mesh'' \<longrightarrow> d ''BATCHSTART'' = Some b \<longrightarrow> d ''BATCHCOUNT'' = Some c \<longrightarrow>
         d ''VERTRSTART'' = Some vs \<longrightarrow> d ''VERTREND'' = Some ve \<longrightarrow>
         create_attributes self (Some d) = Return () (self\<lparr>Attributes := Some
           [TkSceneNodeAttributeData ''TYPE'' t,
            TkSceneNodeAttributeData ''BATCHSTART'' b,
            TkSceneNodeAttributeData ''BATCHCOUNT'' c,
            TkSceneNodeAttributeData ''VERTRSTART'' vs,
            TkSceneNodeAttributeData ''VERTREND'' ve,
            TkSceneNodeAttributeData ''FIRSTSKINMAT'' (PInt 0),
            TkSceneNodeAttributeData ''LASTSKINMAT'' (PInt 0)]\<rparr>))
    \<and> (t = PStr ''Box'' \<longrightarrow> d ''WIDTH'' = Some w \<longrightarrow> d ''HEIGHT'' = Some ht \<longrightarrow>
         d ''DEPTH'' = Some dp \<longrightarrow>
         create_attributes self (Some d) = Return () (self\<lparr>Attributes := Some
           [TkSceneNodeAttributeData ''TYPE'' t,
            TkSceneNodeAttributeData ''WIDTH'' w,
            TkSceneNodeAttributeData ''HEIGHT'' ht,
            TkSceneNodeAttributeData ''DEPTH'' dp]\<rparr>))
    \<and> (t = PStr ''Sphere'' \<longrightarrow> d ''RADIUS'' = Some r \<longrightarrow>
         create_attributes self (Some d) = Return () (self\<lparr>Attributes := Some
           [TkSceneNodeAttributeData ''TYPE'' t,
            TkSceneNodeAttributeData ''RADIUS'' r]\<rparr>))
    \<and> (t = PStr ''Capsule'' \<or> t = PStr ''Cylinder'' \<longrightarrow>
         d ''RADIUS'' = Some r \<longrightarrow> d ''HEIGHT'' = Some ht \<longrightarrow>
         create_attributes self (Some d) = Return () (self\<lparr>Attributes := Some
           [TkSceneNodeAttributeData ''TYPE'' t,
            TkSceneNodeAttributeData ''RADIUS'' r,
            TkSceneNodeAttributeData ''HEIGHT'' ht]\<rparr>))"
  using assms Collision_TYPE_first [OF assms, of data]
    Collision_Mesh_attributes [of self g d b c vs ve]
    Collision_Box_attributes [of self g d w ht dp]
    Collision_Sphere_attributes [of self g d r]
    Collision_Capsule_attributes [OF assms, of d r ht]
  by blast

lemma collision_sphere: "Collision_init ''C1'' [''CollisionType'' \<mapsto> PStr ''Sphere'']
   = Inr (instance_of (Object_init [''CollisionType'' \<mapsto> PStr ''Sphere'']) ''C1'' ''COLLISION''
       (CollisionV (PStr ''Sphere'') (PrimAttrs \<lparr> Width = PInt 0, Height = PInt 0, Depth = PInt 0, Radius = PInt 0 \<rparr>)))"
  by (simp add: Collision_init_def super_init_def py_super_def mro_def dict_get_def Let_def)

theorem Collision_create_attributes_schema_witness:
  "\<exists>self. Collision_init ''C1'' [''CollisionType'' \<mapsto> PStr ''Sphere''] = Inr self
     \<and> (\<exists>s. create_attributes self (Some [''RADIUS'' \<mapsto> PFloat (5 / 2)]) = Return () s
            \<and> Attributes s = Some [TkSceneNodeAttributeData ''TYPE'' (PStr ''Sphere''),
                                    TkSceneNodeAttributeData ''RADIUS'' (PFloat (5 / 2))])"
proof -
  let ?g = "PrimAttrs \<lparr> Width = PInt 0, Height = PInt 0, Depth = PInt 0, Radius = PInt 0 \<rparr>"
  let ?self = "instance_of (Object_init [''CollisionType'' \<mapsto> PStr ''Sphere'']) ''C1'' ''COLLISION''
       (CollisionV (PStr ''Sphere'') ?g)"
  let ?d = "[''RADIUS'' \<mapsto> PFloat (5 / 2)]"
  have p: "payload ?self = CollisionV (PStr ''Sphere'') ?g"
    by (simp add: instance_of_def)
  have r: "?d ''RADIUS'' = Some (PFloat (5 / 2))" by simp
  from Collision_create_attributes_schema [OF p, of _ ?d _ _ _ _ _ _ _ "PFloat (5 / 2)"] r
  have "create_attributes ?self (Some ?d) = Return () (?self\<lparr>Attributes := Some
           [TkSceneNodeAttributeData ''TYPE'' (PStr ''Sphere''),
            TkSceneNodeAttributeData ''RADIUS'' (PFloat (5 / 2))]\<rparr>)"
    by blast
  with collision_sphere show ?thesis by simp
qed

text \<open>
  Claim C8. For a \<open>Locator\<close>, \<open>Joint\<close> or \<open>Emitter\<close> node, \<open>create_attributes(None)\<close>
  changes nothing, so that attributes that were null stay null, and with a data mapping
  that carries the keys of the schema it assigns exactly the pairs \<open>[ATTACHMENT]\<close>,
  \<open>[JOINTINDEX]\<close> and \<open>[MATERIAL, DATA]\<close> respectively (a mapping that lacks a key is the
  subject of claim C7). For a \<open>Reference\<close> node the call assigns the single pair
  (\<open>SCENEGRAPH\<close>, own scene graph path) whatever the data argument is.
\<close>

theorem create_attributes_optional_data:
  "(payload self = LocatorV a \<longrightarrow>
      create_attributes self None = Return () self
      \<and> (d ''ATTACHMENT'' = Some v \<longrightarrow>
           create_attributes self (Some d) = Return () (self\<lparr>Attributes := Some
             [TkSceneNodeAttributeData ''ATTACHMENT'' v]\<rparr>)))
   \<and> (payload self = JointV \<longrightarrow>
      create_attributes self None = Return () self
      \<and> (d ''JOINTINDEX'' = Some v \<longrightarrow>
           create_attributes self (Some d) = Return () (self\<lparr>Attributes := Some
             [TkSceneNodeAttributeData ''JOINTINDEX'' v]\<rparr>)))
   \<and> (payload self = EmitterV \<longrightarrow>
      create_attributes self None = Return () self
      \<and> (d ''MATERIAL'' = Some v \<longrightarrow> d ''DATA'' = Some w \<longrightarrow>
           create_attributes self (Some d) = Return () (self\<lparr>Attributes := Some
             [TkSceneNodeAttributeData ''MATERIAL'' v, TkSceneNodeAttributeData ''DATA'' w]\<rparr>)))
   \<and> (payload self = ReferenceV g \<longrightarrow>
      create_attributes self data = Return () (self\<lparr>Attributes := Some
             [TkSceneNodeAttributeData ''SCENEGRAPH'' g]\<rparr>))"
  by (simp add: create_attributes_def Locator_create_attributes_def Joint_create_attributes_def
      Emitter_create_attributes_def Reference_create_attributes_def Scenegraph_def
      assign_Attributes_def attr_from_Some)

theorem create_attributes_optional_data_witness:
  "\<exists>self. Locator_init ''L1'' Map.empty = Inr self
     \<and> Attributes self = None
     \<and> create_attributes self None = Return () self
     \<and> (\<exists>s. create_attributes self (Some [''ATTACHMENT'' \<mapsto> PStr ''a'']) = Return () s
           \<and> Attributes s = Some [TkSceneNodeAttributeData ''ATTACHMENT'' (PStr ''a'')])"
proof -
  let ?self = "locator_L1"
  let ?d = "[''ATTACHMENT'' \<mapsto> PStr ''a'']"
  have p: "payload ?self = LocatorV (PBool False)"
    by (simp add: instance_of_def locator_L1_def)
  have a: "Attributes ?self = None"
    by (simp add: instance_of_def Object_init_def locator_L1_def)
  have k: "?d ''ATTACHMENT'' = Some (PStr ''a'')" by simp
  from create_attributes_optional_data [of ?self "PBool False" ?d "PStr ''a''"] p k
  have "create_attributes ?self None = Return () ?self"
    and "create_attributes ?self (Some ?d) = Return () (?self\<lparr>Attributes := Some
             [TkSceneNodeAttributeData ''ATTACHMENT'' (PStr ''a'')]\<rparr>)"
    by blast+
  with Locator_init_L1 a show ?thesis by simp
qed

section \<open>Properties of tree assembly\<close>

lemma parent_chain_nonempty: "parent_chain n h x = Some ch \<Longrightarrow> ch \<noteq> [] \<and> hd ch = x"
  by (cases n) (auto split: option.splits)

lemma parent_chain_last: "parent_chain n h x = Some ch \<Longrightarrow> Parent (h (last ch)) = None"
proof (induction n arbitrary: x ch)
  case 0
  then show ?case by simp
next
  case (Suc n)
  show ?case
  proof (cases "Parent (h x)")
    case None
    with Suc.prems show ?thesis by auto
  next
    case (Some p)
    with Suc.prems obtain ch' where ch': "parent_chain n h p = Some ch'" "ch = x # ch'"
      by auto
    from parent_chain_nonempty [OF ch'(1)] Suc.IH [OF ch'(1)] ch'(2) show ?thesis by simp
  qed
qed

lemma parent_chain_length: "parent_chain n h x = Some ch \<Longrightarrow> length ch \<le> n"
  by (induction n arbitrary: x ch) (auto split: option.splits)

lemma parent_chain_mono:
  "parent_chain n h x = Some ch \<Longrightarrow> n \<le> m \<Longrightarrow> parent_chain m h x = Some ch"
proof (induction n arbitrary: x ch m)
  case 0
  then show ?case by simp
next
  case (Suc n)
  from Suc.prems(2) obtain m' where m: "m = Suc m'" "n \<le> m'"
    by (cases m) auto
  show ?case
  proof (cases "Parent (h x)")
    case None
    with Suc.prems m show ?thesis by simp
  next
    case (Some p)
    with Suc.prems obtain ch' where ch': "parent_chain n h p = Some ch'" "ch = x # ch'"
      by auto
    from Suc.IH [OF ch'(1) m(2)] ch'(2) Some m(1) show ?thesis by simp
  qed
qed

lemma parent_chain_cong:
  "parent_chain n h x = Some ch \<Longrightarrow> \<forall>y \<in> set ch. Parent (h' y) = Parent (h y) \<Longrightarrow>
     parent_chain n h' x = Some ch"
proof (induction n arbitrary: x ch)
  case 0
  then show ?case by simp
next
  case (Suc n)
  from parent_chain_nonempty [OF Suc.prems(1)] have x: "x \<in> set ch"
    by (cases ch) auto
  show ?case
  proof (cases "Parent (h x)")
    case None
    with Suc.prems x show ?thesis by simp
  next
    case (Some p)
    with Suc.prems obtain ch' where ch': "parent_chain n h p = Some ch'" "ch = x # ch'"
      by auto
    with Suc.prems(2) have "\<forall>y \<in> set ch'. Parent (h' y) = Parent (h y)" by simp
    from Suc.IH [OF ch'(1) this] ch'(2) Some Suc.prems(2) x show ?thesis by simp
  qed
qed

lemma populate_meshlist_chain:
  "parent_chain n h x = Some ch \<Longrightarrow>
   populate_meshlist n h x obj =
     (case payload (h (last ch)) of
        ModelV ms \<Rightarrow> Return () (h(last ch := (h (last ch))\<lparr>payload := ModelV (ms @ [obj])\<rparr>))
      | _ \<Rightarrow> Raise AttributeError h)"
proof (induction n arbitrary: x ch)
  case 0
  then show ?case by simp
next
  case (Suc n)
  show ?case
  proof (cases "Parent (h x)")
    case None
    with Suc.prems show ?thesis by (auto split: variant.splits)
  next
    case (Some p)
    with Suc.prems obtain ch' where ch': "parent_chain n h p = Some ch'" "ch = x # ch'"
      by auto
    from parent_chain_nonempty [OF ch'(1)] Suc.IH [OF ch'(1)] ch'(2) Some show ?thesis
      by (simp cong: variant.case_cong)
  qed
qed

text \<open>
  Claim C10, as amended. Let the parent-reference chain of the parent end at a parentless
  node that is not a \<open>Model\<close>, let the child not be on that chain, and let the call depth
  suffice for the chain. Then \<open>add_child\<close> with a
  mesh-bearing child raises \<open>AttributeError\<close>, and it does so after the child was
  appended to the parent's \<open>Children\<close> and the child's \<open>Parent\<close> was set: the state in
  which the call ends has both updates.
\<close>

theorem add_child_without_Model_root:
  assumes chain: "parent_chain n h parent = Some ch"
    and notin: "child \<notin> set ch"
    and nomodel: "class_of (h (last ch)) \<noteq> ModelC"
    and mesh: "IsMesh (h child)"
  shows "add_child n h parent child =
           Raise AttributeError
             (h(parent := (h parent)\<lparr>Children := Children (h parent) @ [child]\<rparr>,
                child := (h child)\<lparr>Parent := Some parent\<rparr>))"
proof -
  let ?h1 = "h(parent := (h parent)\<lparr>Children := Children (h parent) @ [child]\<rparr>)"
  let ?h2 = "?h1(child := (h child)\<lparr>Parent := Some parent\<rparr>)"
  from parent_chain_nonempty [OF chain] have "parent \<in> set ch" by (cases ch) auto
  with notin have ne: "child \<noteq> parent" by blast
  then have h2: "give_parent ?h1 child parent = ?h2"
    by (simp add: give_parent_def)
  have "\<forall>y \<in> set ch. Parent (?h2 y) = Parent (h y)"
    using notin by auto
  from parent_chain_cong [OF chain this] have chain2: "parent_chain n ?h2 parent = Some ch" .
  from parent_chain_nonempty [OF chain] have "last ch \<in> set ch" by simp
  with notin have lc: "last ch \<noteq> child" by blast
  have "payload (?h2 (last ch)) = payload (h (last ch))"
    using lc by simp
  with nomodel have pm: "populate_meshlist n ?h2 parent child = Raise AttributeError ?h2"
    unfolding populate_meshlist_chain [OF chain2]
    by (simp add: class_of_def split: variant.splits)
  show ?thesis
    using mesh ne unfolding add_child_def Let_def h2 pm by simp
qed

theorem add_child_without_Model_root_witness:
  "IsMesh (store_L1_M1 1)
   \<and> class_of (store_L1_M1 0) \<noteq> ModelC
   \<and> add_child 1 store_L1_M1 0 1 =
        Raise AttributeError
          (store_L1_M1
             (0 := locator_L1\<lparr>Children := [1]\<rparr>, 1 := mesh_M1\<lparr>Parent := Some 0\<rparr>))"
proof -
  have par: "Parent locator_L1 = None" and ch: "Children locator_L1 = []"
    by (simp_all add: locator_L1_def instance_of_def Object_init_def)
  have chain: "parent_chain 1 store_L1_M1 0 = Some [0]"
    by (simp add: par store_L1_M1_def)
  have notin: "(1::nat) \<notin> set [0]" by simp
  have nomodel: "class_of (store_L1_M1 (last [0])) \<noteq> ModelC"
    by (simp add: locator_L1_def instance_of_def class_of_def store_L1_M1_def)
  have mesh: "IsMesh (store_L1_M1 1)"
    by (simp add: mesh_M1_def store_L1_M1_def)
  have s0: "store_L1_M1 0 = locator_L1" and s1: "store_L1_M1 (Suc 0) = mesh_M1"
    by (simp_all add: store_L1_M1_def)
  from add_child_without_Model_root [OF chain notin nomodel mesh] mesh nomodel
  show ?thesis by (simp add: ch s0 s1)
qed

lemma populate_meshlist_self_parent:
  "Parent (h x) = Some x \<Longrightarrow> populate_meshlist n h x obj = Raise RecursionError h"
  by (induction n) simp_all

lemma add_child_self:
  assumes "IsMesh (h x)"
  shows "add_child n h x x =
           Raise RecursionError
             (h(x := (h x)\<lparr>Children := Children (h x) @ [x], Parent := Some x\<rparr>))"
proof -
  let ?h2 = "h(x := (h x)\<lparr>Children := Children (h x) @ [x], Parent := Some x\<rparr>)"
  have g: "give_parent (h(x := (h x)\<lparr>Children := Children (h x) @ [x]\<rparr>)) x x = ?h2"
    by (simp add: give_parent_def)
  have "Parent (?h2 x) = Some x" by simp
  then have "populate_meshlist n ?h2 x x = Raise RecursionError ?h2"
    by (rule populate_meshlist_self_parent)
  with assms show ?thesis
    unfolding add_child_def Let_def g by simp
qed

text \<open>
  Claim C10 as stated, for every mesh-bearing child, fails when the child is on the chain
  of the parent: a parentless mesh attached to itself has a chain that ends at a parentless
  node that is not a \<open>Model\<close>, and the call raises \<open>RecursionError\<close>, since the new parent
  reference closes a cycle that the registration walks until the call depth is used up.
\<close>

theorem add_child_self_counterexample:
  "parent_chain 3 store_L1_M1 1 = Some [1]
   \<and> class_of (store_L1_M1 1) \<noteq> ModelC
   \<and> IsMesh (store_L1_M1 1)
   \<and> add_child 3 store_L1_M1 1 1 =
        Raise RecursionError
          (store_L1_M1(1 := mesh_M1\<lparr>Children := [1], Parent := Some 1\<rparr>))"
proof -
  have s1: "store_L1_M1 1 = mesh_M1" "store_L1_M1 (Suc 0) = mesh_M1"
    by (simp_all add: store_L1_M1_def)
  have f: "Parent mesh_M1 = None" "Children mesh_M1 = []" "IsMesh mesh_M1"
    "class_of mesh_M1 \<noteq> ModelC"
    by (simp_all add: mesh_M1_def instance_of_def Object_init_def class_of_def)
  have "parent_chain 3 store_L1_M1 1 = Some [1]"
    by (simp add: numeral_3_eq_3 s1 f)
  moreover from f(3) have m: "IsMesh (store_L1_M1 1)" by (simp add: s1)
  moreover from add_child_self [of store_L1_M1 1 3] m
  have "add_child 3 store_L1_M1 1 1 =
        Raise RecursionError
          (store_L1_M1(1 := mesh_M1\<lparr>Children := [1], Parent := Some 1\<rparr>))"
    by (simp add: s1 f)
  ultimately show ?thesis using f(4) by (simp add: s1)
qed

lemma add_child_effect:
  assumes chain: "parent_chain n h p = Some ch"
    and notin: "c \<notin> set ch"
    and reg: "ListOfMeshes (h (last ch)) = Some ms"
  shows "\<exists>h'. add_child n h p c = Return () h'
          \<and> (\<forall>x. Parent (h' x) = (if x = c then Some p else Parent (h x)))
          \<and> (\<forall>x. Children (h' x) = (if x = p then Children (h p) @ [c] else Children (h x)))
          \<and> (\<forall>x. IsMesh (h' x) = IsMesh (h x))
          \<and> (\<forall>x. ListOfMeshes (h' x) =
                 (if x = last ch \<and> IsMesh (h c) then Some (ms @ [c]) else ListOfMeshes (h x)))"
proof -
  let ?h1 = "h(p := (h p)\<lparr>Children := Children (h p) @ [c]\<rparr>)"
  let ?h2 = "?h1(c := (h c)\<lparr>Parent := Some p\<rparr>)"
  let ?r = "last ch"
  from parent_chain_nonempty [OF chain] have "p \<in> set ch" by (cases ch) auto
  with notin have ne: "c \<noteq> p" by blast
  then have h2: "give_parent ?h1 c p = ?h2"
    by (simp add: give_parent_def)
  have "\<forall>y \<in> set ch. Parent (?h2 y) = Parent (h y)"
    using notin by auto
  from parent_chain_cong [OF chain this] have chain2: "parent_chain n ?h2 p = Some ch" .
  from parent_chain_nonempty [OF chain] have "?r \<in> set ch" by simp
  with notin have rc: "?r \<noteq> c" by blast
  from reg have pr: "payload (h ?r) = ModelV ms"
    by (simp add: ListOfMeshes_def split: variant.splits)
  have pr2: "payload (?h2 ?r) = ModelV ms"
    using rc pr by auto
  have pm: "populate_meshlist n ?h2 p c
              = Return () (?h2(?r := (?h2 ?r)\<lparr>payload := ModelV (ms @ [c])\<rparr>))"
    unfolding populate_meshlist_chain [OF chain2] pr2 by simp
  show ?thesis
  proof (cases "IsMesh (h c)")
    case True
    then have "add_child n h p c = Return () (?h2(?r := (?h2 ?r)\<lparr>payload := ModelV (ms @ [c])\<rparr>))"
      unfolding add_child_def Let_def h2 pm using ne by simp
    moreover have "\<forall>x. Parent ((?h2(?r := (?h2 ?r)\<lparr>payload := ModelV (ms @ [c])\<rparr>)) x)
                      = (if x = c then Some p else Parent (h x))"
      using rc ne by simp
    moreover have "\<forall>x. Children ((?h2(?r := (?h2 ?r)\<lparr>payload := ModelV (ms @ [c])\<rparr>)) x)
                      = (if x = p then Children (h p) @ [c] else Children (h x))"
      using rc ne by simp
    moreover have "\<forall>x. IsMesh ((?h2(?r := (?h2 ?r)\<lparr>payload := ModelV (ms @ [c])\<rparr>)) x) = IsMesh (h x)"
      using rc ne by simp
    moreover have "\<forall>x. ListOfMeshes ((?h2(?r := (?h2 ?r)\<lparr>payload := ModelV (ms @ [c])\<rparr>)) x)
                      = (if x = ?r \<and> IsMesh (h c) then Some (ms @ [c]) else ListOfMeshes (h x))"
      using rc ne True by (simp add: ListOfMeshes_def)
    ultimately show ?thesis by blast
  next
    case False
    then have "add_child n h p c = Return () ?h2"
      unfolding add_child_def Let_def h2 using ne by simp
    moreover have "\<forall>x. Parent (?h2 x) = (if x = c then Some p else Parent (h x))"
      using ne by simp
    moreover have "\<forall>x. Children (?h2 x) = (if x = p then Children (h p) @ [c] else Children (h x))"
      using ne by simp
    moreover have "\<forall>x. IsMesh (?h2 x) = IsMesh (h x)"
      using ne by simp
    moreover have "\<forall>x. ListOfMeshes (?h2 x)
                      = (if x = ?r \<and> IsMesh (h c) then Some (ms @ [c]) else ListOfMeshes (h x))"
      using ne False by (simp add: ListOfMeshes_def)
    ultimately show ?thesis by blast
  qed
qed

lemma children_rel_mono:
  "\<forall>x. set (Children (h x)) \<subseteq> set (Children (h' x)) \<Longrightarrow> children_rel h \<subseteq> children_rel h'"
  by (auto simp: children_rel_def)

lemma add_child_plain:
  assumes "\<not> IsMesh (h c)"
  shows "\<exists>h'. add_child n h p c = Return () h'
          \<and> (\<forall>x. Parent (h' x) = (if x = c then Some p else Parent (h x)))
          \<and> (\<forall>x. Children (h' x) = (if x = p then Children (h p) @ [c] else Children (h x)))
          \<and> (\<forall>x. IsMesh (h' x) = IsMesh (h x))
          \<and> (\<forall>x. ListOfMeshes (h' x) = ListOfMeshes (h x))"
proof -
  let ?h1 = "h(p := (h p)\<lparr>Children := Children (h p) @ [c]\<rparr>)"
  let ?h2 = "?h1(c := (?h1 c)\<lparr>Parent := Some p\<rparr>)"
  have m: "IsMesh (?h2 c) = IsMesh (h c)" by simp
  have "add_child n h p c = Return () ?h2"
    unfolding add_child_def Let_def give_parent_def using assms m by simp
  moreover have "\<forall>x. Parent (?h2 x) = (if x = c then Some p else Parent (h x))" by simp
  moreover have "\<forall>x. Children (?h2 x) = (if x = p then Children (h p) @ [c] else Children (h x))"
    by simp
  moreover have "\<forall>x. IsMesh (?h2 x) = IsMesh (h x)" by simp
  moreover have "\<forall>x. ListOfMeshes (?h2 x) = ListOfMeshes (h x)"
    by (simp add: ListOfMeshes_def)
  ultimately show ?thesis by blast
qed

lemma parent_chain_parentless:
  "parent_chain k h x = Some ch \<Longrightarrow> y \<in> set ch \<Longrightarrow> Parent (h y) = None \<Longrightarrow> y = last ch"
proof (induction k arbitrary: x ch)
  case 0
  then show ?case by simp
next
  case (Suc k)
  show ?case
  proof (cases "Parent (h x)")
    case None
    with Suc.prems show ?thesis by auto
  next
    case (Some p)
    with Suc.prems(1) obtain ch' where ch': "parent_chain k h p = Some ch'" "ch = x # ch'"
      by auto
    from Suc.prems(3) Some have "y \<noteq> x" by auto
    with Suc.prems(2) ch'(2) have "y \<in> set ch'" by simp
    from Suc.IH [OF ch'(1) this Suc.prems(3)] parent_chain_nonempty [OF ch'(1)] ch'(2)
    show ?thesis by simp
  qed
qed

lemma parent_chain_children:
  assumes J: "\<forall>x \<in> N. \<forall>q. Parent (h x) = Some q \<longrightarrow> q \<in> N \<and> x \<in> set (Children (h q))"
  shows "parent_chain k h x = Some ch \<Longrightarrow> x \<in> N \<Longrightarrow> (last ch, x) \<in> (children_rel h)\<^sup>*"
proof (induction k arbitrary: x ch)
  case 0
  then show ?case by simp
next
  case (Suc k)
  show ?case
  proof (cases "Parent (h x)")
    case None
    with Suc.prems show ?thesis by auto
  next
    case (Some p)
    with Suc.prems(1) obtain ch' where ch': "parent_chain k h p = Some ch'" "ch = x # ch'"
      by auto
    from J Suc.prems(2) Some have p: "p \<in> N" "x \<in> set (Children (h p))" by blast+
    from Suc.IH [OF ch'(1) p(1)] have "(last ch', p) \<in> (children_rel h)\<^sup>*" .
    moreover from p(2) have "(p, x) \<in> children_rel h" by (simp add: children_rel_def)
    ultimately have "(last ch', x) \<in> (children_rel h)\<^sup>*" by (rule rtrancl_into_rtrancl)
    with parent_chain_nonempty [OF ch'(1)] ch'(2) show ?thesis by simp
  qed
qed

lemma chain_of_descendant:
  assumes K: "\<forall>y \<in> N. \<forall>x \<in> set (Children (h y)). x \<in> N \<and> Parent (h x) = Some y"
    and r: "r \<in> N" "Parent (h r) = None"
    and path: "(r, x) \<in> (children_rel h)\<^sup>*"
  shows "x \<in> N \<and> (\<forall>k ch. parent_chain k h x = Some ch \<longrightarrow> last ch = r)"
  using path
proof (induction rule: rtrancl_induct)
  case base
  have "last ch = r" if "parent_chain k h r = Some ch" for k ch
    using that r(2) by (cases k) auto
  with r(1) show ?case by blast
next
  case (step y z)
  from step(2) have zc: "z \<in> set (Children (h y))" by (simp add: children_rel_def)
  with K step(3) have z: "z \<in> N" "Parent (h z) = Some y" by blast+
  have "last ch = r" if c: "parent_chain k h z = Some ch" for k ch
  proof -
    from c obtain k' where k: "k = Suc k'" by (cases k) auto
    with c z(2) obtain ch' where ch': "parent_chain k' h y = Some ch'" "ch = z # ch'"
      by auto
    from step(3) ch'(1) have "last ch' = r" by blast
    with parent_chain_nonempty [OF ch'(1)] ch'(2) show ?thesis by simp
  qed
  with z(1) show ?case by blast
qed


lemma add_child_registers:
  assumes "IsMesh (h c) \<Longrightarrow>
             parent_chain n h p = Some ch \<and> c \<notin> set ch \<and> ListOfMeshes (h (last ch)) \<noteq> None"
  shows "\<exists>h'. add_child n h p c = Return () h'
          \<and> (\<forall>x. Parent (h' x) = (if x = c then Some p else Parent (h x)))
          \<and> (\<forall>x. Children (h' x) = (if x = p then Children (h p) @ [c] else Children (h x)))
          \<and> (\<forall>x. IsMesh (h' x) = IsMesh (h x))
          \<and> (\<forall>x. ListOfMeshes (h' x) =
                 (if IsMesh (h c) \<and> x = last ch
                  then map_option (\<lambda>ms. ms @ [c]) (ListOfMeshes (h x))
                  else ListOfMeshes (h x)))"
proof (cases "IsMesh (h c)")
  case False
  from add_child_plain [of h c n p] False show ?thesis by auto
next
  case True
  with assms obtain ms where a: "parent_chain n h p = Some ch" "c \<notin> set ch"
    "ListOfMeshes (h (last ch)) = Some ms" by auto
  from add_child_effect [OF a] obtain h' where
    "add_child n h p c = Return () h'"
    "\<forall>x. Parent (h' x) = (if x = c then Some p else Parent (h x))"
    "\<forall>x. Children (h' x) = (if x = p then Children (h p) @ [c] else Children (h x))"
    "\<forall>x. IsMesh (h' x) = IsMesh (h x)"
    and l: "\<forall>x. ListOfMeshes (h' x) =
                 (if x = last ch \<and> IsMesh (h c) then Some (ms @ [c]) else ListOfMeshes (h x))"
    by blast
  moreover from l a(3) True
  have "\<forall>x. ListOfMeshes (h' x) =
                 (if IsMesh (h c) \<and> x = last ch
                  then map_option (\<lambda>ms. ms @ [c]) (ListOfMeshes (h x))
                  else ListOfMeshes (h x))"
    by simp
  ultimately show ?thesis by blast
qed

lemma assembling_add_child:
  assumes inv: "assembling N h r dn (insert c later)"
    and p: "p \<in> N" and c: "c \<in> N" "c \<notin> set dn" "c \<noteq> r"
    and cond: "IsMesh (h c) \<Longrightarrow>
                 parent_chain n h p = Some ch \<and> c \<notin> set ch
                 \<and> ListOfMeshes (h (last ch)) \<noteq> None \<and> last ch \<notin> later"
  shows "\<exists>h'. add_child n h p c = Return () h' \<and> assembling N h' r (dn @ [c]) later
           \<and> (\<forall>x. IsMesh (h' x) = IsMesh (h x))"
proof -
  from inv have rN: "r \<in> N" and rp: "Parent (h r) = None"
    and J: "\<forall>x \<in> N. \<forall>q. Parent (h x) = Some q \<longrightarrow> q \<in> N \<and> x \<in> set (Children (h q))"
    and K: "\<forall>y \<in> N. \<forall>x \<in> set (Children (h y)). x \<in> N \<and> x \<in> set dn \<and> Parent (h x) = Some y"
    and F: "\<forall>x \<in> N. x \<notin> set dn \<longrightarrow> Parent (h x) = None"
    and Q: "\<forall>c' \<in> set dn. IsMesh (h c') \<longrightarrow>
            (\<exists>k ch ms. parent_chain k h c' = Some ch \<and> last ch \<notin> insert c later
                \<and> ListOfMeshes (h (last ch)) = Some ms \<and> c' \<in> set ms)"
    and P: "\<exists>ms. ListOfMeshes (h r) = Some ms \<and> ms = filter (\<lambda>c. c \<in> set ms) dn
            \<and> (\<forall>c \<in> set ms. IsMesh (h c) \<and> (r, c) \<in> (children_rel h)\<^sup>+)"
    unfolding assembling_def by blast+
  from F c(1,2) have cpar: "Parent (h c) = None" by blast
  from cond have cond': "IsMesh (h c) \<Longrightarrow>
             parent_chain n h p = Some ch \<and> c \<notin> set ch \<and> ListOfMeshes (h (last ch)) \<noteq> None"
    by blast
  from add_child_registers [OF cond'] obtain h' where
    ret: "add_child n h p c = Return () h'"
    and par: "\<And>x. Parent (h' x) = (if x = c then Some p else Parent (h x))"
    and chi: "\<And>x. Children (h' x) = (if x = p then Children (h p) @ [c] else Children (h x))"
    and ism: "\<And>x. IsMesh (h' x) = IsMesh (h x)"
    and lom: "\<And>x. ListOfMeshes (h' x) =
                 (if IsMesh (h c) \<and> x = last ch
                  then map_option (\<lambda>ms. ms @ [c]) (ListOfMeshes (h x))
                  else ListOfMeshes (h x))"
    by blast
  have sub: "children_rel h \<subseteq> children_rel h'"
    by (rule children_rel_mono) (auto simp: chi)
  have grow: "\<exists>ms'. ListOfMeshes (h' x) = Some ms' \<and> set ms \<subseteq> set ms'"
    if "ListOfMeshes (h x) = Some ms" for x ms
    using that by (auto simp: lom)
  have rp': "Parent (h' r) = None" using rp c(3) by (simp add: par)
  have J': "\<forall>x \<in> N. \<forall>q. Parent (h' x) = Some q \<longrightarrow> q \<in> N \<and> x \<in> set (Children (h' q))"
  proof (intro ballI allI impI)
    fix x q assume x: "x \<in> N" and q: "Parent (h' x) = Some q"
    show "q \<in> N \<and> x \<in> set (Children (h' q))"
    proof (cases "x = c")
      case True
      with q have "q = p" by (simp add: par)
      with True p show ?thesis by (simp add: chi)
    next
      case False
      with q have "Parent (h x) = Some q" by (simp add: par)
      with J x have "q \<in> N" "x \<in> set (Children (h q))" by blast+
      then show ?thesis by (auto simp: chi)
    qed
  qed
  have K': "\<forall>y \<in> N. \<forall>x \<in> set (Children (h' y)).
              x \<in> N \<and> x \<in> set (dn @ [c]) \<and> Parent (h' x) = Some y"
  proof (intro ballI)
    fix y x assume y: "y \<in> N" and x: "x \<in> set (Children (h' y))"
    show "x \<in> N \<and> x \<in> set (dn @ [c]) \<and> Parent (h' x) = Some y"
    proof (cases "x \<in> set (Children (h y))")
      case True
      with K y have k: "x \<in> N" "x \<in> set dn" "Parent (h x) = Some y" by blast+
      from k(2) c(2) have "x \<noteq> c" by blast
      with k show ?thesis by (simp add: par)
    next
      case False
      with x have "y = p \<and> x = c" by (auto simp: chi split: if_splits)
      with c(1) show ?thesis by (simp add: par)
    qed
  qed
  have F': "\<forall>x \<in> N. x \<notin> set (dn @ [c]) \<longrightarrow> Parent (h' x) = None"
    using F by (simp add: par)
  have Q': "\<exists>k ch ms. parent_chain k h' c' = Some ch \<and> last ch \<notin> later
                \<and> ListOfMeshes (h' (last ch)) = Some ms \<and> c' \<in> set ms"
    if c': "c' \<in> set (dn @ [c])" and m: "IsMesh (h' c')" for c'
  proof (cases "c' = c")
    case False
    with c' have "c' \<in> set dn" by simp
    with Q m obtain k ch0 ms where q: "parent_chain k h c' = Some ch0" "last ch0 \<notin> insert c later"
      "ListOfMeshes (h (last ch0)) = Some ms" "c' \<in> set ms"
      by (auto simp: ism)
    have "c \<notin> set ch0"
    proof
      assume "c \<in> set ch0"
      from parent_chain_parentless [OF q(1) this cpar] q(2) show False by simp
    qed
    then have "\<forall>y \<in> set ch0. Parent (h' y) = Parent (h y)" by (auto simp: par)
    from parent_chain_cong [OF q(1) this] have "parent_chain k h' c' = Some ch0" .
    moreover from q(2) have "last ch0 \<notin> later" by simp
    moreover from grow [OF q(3)] q(4)
    have "\<exists>ms'. ListOfMeshes (h' (last ch0)) = Some ms' \<and> c' \<in> set ms'" by blast
    ultimately show ?thesis by blast
  next
    case True
    with m have mc: "IsMesh (h c)" by (simp add: ism)
    from cond [OF mc] obtain ms where a: "parent_chain n h p = Some ch" "c \<notin> set ch"
      "ListOfMeshes (h (last ch)) = Some ms" "last ch \<notin> later" by auto
    from a(2) have "\<forall>y \<in> set ch. Parent (h' y) = Parent (h y)" by (auto simp: par)
    from parent_chain_cong [OF a(1) this] have "parent_chain n h' p = Some ch" .
    then have "parent_chain (Suc n) h' c = Some (c # ch)" by (simp add: par)
    moreover from parent_chain_nonempty [OF a(1)] have "last (c # ch) = last ch" by simp
    moreover have "ListOfMeshes (h' (last ch)) = Some (ms @ [c])"
      using mc a(3) by (simp add: lom)
    ultimately have "parent_chain (Suc n) h' c' = Some (c # ch) \<and> last (c # ch) \<notin> later
                \<and> ListOfMeshes (h' (last (c # ch))) = Some (ms @ [c]) \<and> c' \<in> set (ms @ [c])"
      using a(4) True by simp
    then show ?thesis by blast
  qed
  from P obtain msr where msr: "ListOfMeshes (h r) = Some msr"
    "msr = filter (\<lambda>c. c \<in> set msr) dn"
    "\<forall>c \<in> set msr. IsMesh (h c) \<and> (r, c) \<in> (children_rel h)\<^sup>+" by blast
  from msr(2) have msub: "set msr \<subseteq> set dn"
    by (metis filter_is_subset)
  with c(2) have cm: "c \<notin> set msr" by blast
  have old: "\<forall>c' \<in> set msr. IsMesh (h' c') \<and> (r, c') \<in> (children_rel h')\<^sup>+"
    using msr(3) trancl_mono [OF _ sub] by (auto simp: ism)
  have P': "\<exists>ms. ListOfMeshes (h' r) = Some ms \<and> ms = filter (\<lambda>c. c \<in> set ms) (dn @ [c])
            \<and> (\<forall>c \<in> set ms. IsMesh (h' c) \<and> (r, c) \<in> (children_rel h')\<^sup>+)"
  proof (cases "IsMesh (h c) \<and> r = last ch")
    case False
    then have "ListOfMeshes (h' r) = Some msr" using msr(1) by (auto simp: lom)
    moreover have "msr = filter (\<lambda>c. c \<in> set msr) (dn @ [c])"
      using msr(2) cm by simp
    ultimately show ?thesis using old by blast
  next
    case True
    then have mc: "IsMesh (h c)" and e: "last ch = r" by simp_all
    from cond [OF mc] have a: "parent_chain n h p = Some ch" by blast
    have l: "ListOfMeshes (h' r) = Some (msr @ [c])"
      using mc e msr(1) by (simp add: lom)
    have "filter (\<lambda>x. x \<in> set (msr @ [c])) dn = filter (\<lambda>x. x \<in> set msr) dn"
      using c(2) by (intro filter_cong) auto
    with msr(2) have f: "msr @ [c] = filter (\<lambda>x. x \<in> set (msr @ [c])) (dn @ [c])"
      by simp
    from parent_chain_children [OF J a p] e have "(r, p) \<in> (children_rel h)\<^sup>*" by simp
    with rtrancl_mono [OF sub] have "(r, p) \<in> (children_rel h')\<^sup>*" by blast
    moreover have "(p, c) \<in> children_rel h'" by (simp add: children_rel_def chi)
    ultimately have "(r, c) \<in> (children_rel h')\<^sup>+" by (rule rtrancl_into_trancl1)
    with old mc have "\<forall>c' \<in> set (msr @ [c]). IsMesh (h' c') \<and> (r, c') \<in> (children_rel h')\<^sup>+"
      by (simp add: ism)
    with l f show ?thesis by blast
  qed
  have "assembling N h' r (dn @ [c]) later"
    unfolding assembling_def using rN rp' J' K' F' Q' P' by blast
  with ret ism show ?thesis by blast
qed


lemma assembling_add_children:
  assumes "assembling N h r dn (snd ` set cs)"
    and "fst ` set cs \<union> snd ` set cs \<subseteq> N"
    and "distinct (dn @ map snd cs)"
    and "r \<notin> snd ` set cs"
    and "registers_at_final_roots n h cs"
  shows "\<exists>h'. add_children n h cs = Return () h' \<and> assembling N h' r (dn @ map snd cs) {}
           \<and> (\<forall>x. IsMesh (h' x) = IsMesh (h x))"
  using assms
proof (induction cs arbitrary: h dn)
  case Nil
  then show ?case by simp
next
  case (Cons pc cs)
  obtain p c where pc: "pc = (p, c)" by (cases pc)
  from Cons.prems(1) pc have inv: "assembling N h r dn (insert c (snd ` set cs))" by simp
  from Cons.prems(2) pc have pN: "p \<in> N" and cN: "c \<in> N"
    and sub: "fst ` set cs \<union> snd ` set cs \<subseteq> N" by auto
  from Cons.prems(3) pc have cdn: "c \<notin> set dn"
    and dist: "distinct ((dn @ [c]) @ map snd cs)" by auto
  from Cons.prems(4) pc have cr: "c \<noteq> r" and rcs: "r \<notin> snd ` set cs" by auto
  from Cons.prems(5) pc have
    m: "IsMesh (h c) \<Longrightarrow> (case parent_chain n h p of
               None \<Rightarrow> False
             | Some ch \<Rightarrow> c \<notin> set ch \<and> ListOfMeshes (h (last ch)) \<noteq> None
                          \<and> last ch \<notin> snd ` set cs)"
    and rest: "registers_at_final_roots n (state_of (add_child n h p c)) cs"
    by (simp_all split: if_splits)
  obtain ch where cond: "IsMesh (h c) \<Longrightarrow>
                 parent_chain n h p = Some ch \<and> c \<notin> set ch
                 \<and> ListOfMeshes (h (last ch)) \<noteq> None \<and> last ch \<notin> snd ` set cs"
  proof (cases "IsMesh (h c)")
    case True
    with m obtain ch where "parent_chain n h p = Some ch" "c \<notin> set ch"
      "ListOfMeshes (h (last ch)) \<noteq> None" "last ch \<notin> snd ` set cs"
      by (auto split: option.splits)
    with that [of ch] show ?thesis by blast
  next
    case False
    with that [of "[]"] show ?thesis by blast
  qed
  from assembling_add_child [OF inv pN cN cdn cr cond] obtain h1 where
    h1: "add_child n h p c = Return () h1" "assembling N h1 r (dn @ [c]) (snd ` set cs)"
    "\<forall>x. IsMesh (h1 x) = IsMesh (h x)"
    by blast
  from rest h1(1) have rest1: "registers_at_final_roots n h1 cs"
    by (simp add: state_of_def)
  from Cons.IH [OF h1(2) sub dist rcs rest1] obtain h' where
    h': "add_children n h1 cs = Return () h'" "assembling N h' r ((dn @ [c]) @ map snd cs) {}"
      "\<forall>x. IsMesh (h' x) = IsMesh (h1 x)" by blast
  from h1(1) h'(1) pc have "add_children n h (pc # cs) = Return () h'" by simp
  moreover from h'(2) pc have "assembling N h' r (dn @ map snd (pc # cs)) {}" by simp
  moreover from h'(3) h1(3) have "\<forall>x. IsMesh (h' x) = IsMesh (h x)" by simp
  ultimately show ?case by blast
qed

lemma assembling_final:
  assumes a: "assembling N h r dn {}" and d: "distinct dn"
  shows "Parent (h r) = None \<and> mesh_registry_exact h r
       \<and> ListOfMeshes (h r) = Some (filter (\<lambda>c. IsMesh (h c) \<and> c \<in> descendants h r) dn)"
proof -
  from a have rN: "r \<in> N" and rp: "Parent (h r) = None"
    and K: "\<forall>y \<in> N. \<forall>x \<in> set (Children (h y)). x \<in> N \<and> x \<in> set dn \<and> Parent (h x) = Some y"
    and Q: "\<forall>c' \<in> set dn. IsMesh (h c') \<longrightarrow>
            (\<exists>k ch ms. parent_chain k h c' = Some ch
                \<and> ListOfMeshes (h (last ch)) = Some ms \<and> c' \<in> set ms)"
    and P: "\<exists>ms. ListOfMeshes (h r) = Some ms \<and> ms = filter (\<lambda>c. c \<in> set ms) dn
            \<and> (\<forall>c \<in> set ms. IsMesh (h c) \<and> (r, c) \<in> (children_rel h)\<^sup>+)"
    unfolding assembling_def by blast+
  from K have K': "\<forall>y \<in> N. \<forall>x \<in> set (Children (h y)). x \<in> N \<and> Parent (h x) = Some y"
    by blast
  from P obtain ms where ms: "ListOfMeshes (h r) = Some ms"
    "ms = filter (\<lambda>c. c \<in> set ms) dn"
    "\<forall>c \<in> set ms. IsMesh (h c) \<and> (r, c) \<in> (children_rel h)\<^sup>+" by blast
  have below: "x \<in> set dn" if "x \<in> descendants h r" for x
  proof -
    from that have "(r, x) \<in> (children_rel h)\<^sup>+" by (simp add: descendants_def)
    from tranclD2 [OF this] obtain y where y: "(r, y) \<in> (children_rel h)\<^sup>*"
      "(y, x) \<in> children_rel h" by blast
    from chain_of_descendant [OF K' rN rp y(1)] have "y \<in> N" by blast
    with K y(2) show ?thesis by (auto simp: children_rel_def)
  qed
  have reg: "x \<in> set ms" if x: "x \<in> descendants h r" and m: "IsMesh (h x)" for x
  proof -
    from below [OF x] Q m obtain k ch ms' where q: "parent_chain k h x = Some ch"
      "ListOfMeshes (h (last ch)) = Some ms'" "x \<in> set ms'" by blast
    from x have "(r, x) \<in> (children_rel h)\<^sup>*" by (simp add: descendants_def)
    from chain_of_descendant [OF K' rN rp this] q(1) have "last ch = r" by blast
    with q(2,3) ms(1) show ?thesis by simp
  qed
  have set_ms: "set ms = {x \<in> descendants h r. IsMesh (h x)}"
    using ms(3) reg by (auto simp: descendants_def)
  from ms(2) d have dist: "distinct ms"
    by (metis distinct_filter)
  have "filter (\<lambda>c. c \<in> set ms) dn = filter (\<lambda>c. IsMesh (h c) \<and> c \<in> descendants h r) dn"
    unfolding set_ms by (intro filter_cong) auto
  with ms(2) have "ms = filter (\<lambda>c. IsMesh (h c) \<and> c \<in> descendants h r) dn" by simp
  with ms(1) set_ms dist rp show ?thesis
    unfolding mesh_registry_exact_def by blast
qed

text \<open>
  Claim C1, as amended. Let a tree be assembled by \<open>add_child\<close> calls from newly
  constructed nodes (no parent, no children; the root a \<open>Model\<close> with an empty registry),
  each node attached at most once and the root never, in any order, top-down or bottom-up,
  such that no mesh-bearing child is registered at a node that a later call attaches as a
  child: whenever a mesh-bearing child is attached, the parent's chain ends at a node with
  a registry that stays parentless. Then all calls return, the root stays parentless, and
  the registry of the root holds exactly the mesh-bearing nodes below the root, each once,
  however deep, in the order of the calls that attached them.
\<close>

theorem mesh_registry_of_final_root:
  assumes root: "Parent (h r) = None" "Children (h r) = []" "ListOfMeshes (h r) = Some []"
      "r \<notin> snd ` set calls"
    and new: "\<forall>x \<in> fst ` set calls \<union> snd ` set calls. Parent (h x) = None \<and> Children (h x) = []"
    and once: "distinct (map snd calls)"
    and reg: "registers_at_final_roots n h calls"
  shows "\<exists>h'. add_children n h calls = Return () h'
           \<and> Parent (h' r) = None
           \<and> (\<forall>x. IsMesh (h' x) = IsMesh (h x))
           \<and> mesh_registry_exact h' r
           \<and> ListOfMeshes (h' r)
                = Some (filter (\<lambda>c. IsMesh (h c) \<and> c \<in> descendants h' r) (map snd calls))"
proof -
  let ?N = "insert r (fst ` set calls \<union> snd ` set calls)"
  from root(1,2) new have f: "\<forall>x \<in> ?N. Parent (h x) = None \<and> Children (h x) = []"
    by auto
  then have "assembling ?N h r [] (snd ` set calls)"
    unfolding assembling_def using root(3) by simp
  moreover have "fst ` set calls \<union> snd ` set calls \<subseteq> ?N" by blast
  moreover from once have "distinct ([] @ map snd calls)" by simp
  ultimately obtain h' where h': "add_children n h calls = Return () h'"
    "assembling ?N h' r ([] @ map snd calls) {}" and ism: "\<forall>x. IsMesh (h' x) = IsMesh (h x)"
    using assembling_add_children [of ?N h r "[]" calls n] root(4) reg by blast
  from h'(2) have "assembling ?N h' r (map snd calls) {}" by simp
  from assembling_final [OF this once] ism h'(1) show ?thesis by simp
qed

text \<open>
  The first three conditions on a call that attaches a mesh-bearing child say no more than
  that the call returns.
\<close>

lemma populate_meshlist_Return:
  "populate_meshlist n h x obj = Return v h' \<Longrightarrow>
     \<exists>ch ms. parent_chain n h x = Some ch \<and> ListOfMeshes (h (last ch)) = Some ms"
proof (induction n arbitrary: x)
  case 0
  then show ?case by simp
next
  case (Suc n)
  show ?case
  proof (cases "Parent (h x)")
    case None
    with Suc.prems show ?thesis
      by (auto simp: ListOfMeshes_def split: variant.splits)
  next
    case (Some p)
    with Suc.prems have "populate_meshlist n h p obj = Return v h'" by simp
    from Suc.IH [OF this] obtain ch ms where
      c: "parent_chain n h p = Some ch" "ListOfMeshes (h (last ch)) = Some ms" by blast
    from parent_chain_nonempty [OF c(1)] c Some show ?thesis by simp
  qed
qed

lemma parent_chain_unique:
  assumes "parent_chain n h x = Some a" and "parent_chain m h x = Some b"
  shows "a = b"
proof -
  from parent_chain_mono [OF assms(1), of "max n m"] parent_chain_mono [OF assms(2), of "max n m"]
  show ?thesis by simp
qed

lemma parent_chain_member:
  "parent_chain n h x = Some ch \<Longrightarrow> y \<in> set ch \<Longrightarrow>
     \<exists>m ch'. parent_chain m h y = Some ch' \<and> length ch' \<le> length ch"
proof (induction n arbitrary: x ch)
  case 0
  then show ?case by simp
next
  case (Suc n)
  show ?case
  proof (cases "y = x")
    case True
    with Suc.prems(1) show ?thesis by blast
  next
    case False
    with Suc.prems obtain p ch1 where c: "parent_chain n h p = Some ch1" "ch = x # ch1"
      by (auto split: option.splits)
    with Suc.prems(2) False have "y \<in> set ch1" by simp
    from Suc.IH [OF c(1) this] obtain m ch' where
      "parent_chain m h y = Some ch'" "length ch' \<le> length ch1" by blast
    with c(2) have "parent_chain m h y = Some ch' \<and> length ch' \<le> length ch" by simp
    then show ?thesis by blast
  qed
qed

lemma parent_chain_no_cycle:
  assumes "parent_chain n h x = Some ch" and "y \<in> set ch" and "Parent (h y) = Some x"
  shows False
proof -
  from parent_chain_member [OF assms(1,2)] obtain m ch' where
    c: "parent_chain m h y = Some ch'" "length ch' \<le> length ch" by blast
  from c(1) assms(3) obtain m' ch'' where
    d: "m = Suc m'" "parent_chain m' h x = Some ch''" "ch' = y # ch''"
    by (cases m) auto
  from parent_chain_unique [OF assms(1) d(2)] d(3) c(2) show False by simp
qed

lemma add_child_Return_mesh:
  assumes mesh: "IsMesh (h c)" and ret: "add_child n h p c = Return v h'"
  shows "\<exists>ch. parent_chain n h p = Some ch \<and> c \<notin> set ch
              \<and> ListOfMeshes (h (last ch)) \<noteq> None"
proof -
  let ?h1 = "h(p := (h p)\<lparr>Children := Children (h p) @ [c]\<rparr>)"
  let ?h2 = "give_parent ?h1 c p"
  have par: "Parent (?h2 x) = (if x = c then Some p else Parent (h x))" for x
    by (simp add: give_parent_def)
  have lom: "ListOfMeshes (?h2 x) = ListOfMeshes (h x)" for x
    by (simp add: give_parent_def ListOfMeshes_def)
  have "IsMesh (?h2 c)" using mesh by (auto simp: give_parent_def)
  with ret have "populate_meshlist n ?h2 p c = Return v h'"
    unfolding add_child_def Let_def by simp
  from populate_meshlist_Return [OF this] obtain ch ms where
    c: "parent_chain n ?h2 p = Some ch" "ListOfMeshes (?h2 (last ch)) = Some ms" by blast
  have notin: "c \<notin> set ch"
  proof
    assume "c \<in> set ch"
    from parent_chain_no_cycle [OF c(1) this] show False by (simp add: par)
  qed
  then have "\<forall>y \<in> set ch. Parent (h y) = Parent (?h2 y)" by (auto simp: par)
  from parent_chain_cong [OF c(1) this] have "parent_chain n h p = Some ch" .
  with notin c(2) show ?thesis by (simp add: lom)
qed

text \<open>
  Conversely, \<open>add_child\<close> raises \<open>AttributeError\<close> only for a mesh-bearing child that is
  not on the chain of the parent, when that chain ends at a node without a registry.
\<close>

lemma populate_meshlist_AttributeError:
  "populate_meshlist n h x obj = Raise AttributeError h' \<Longrightarrow>
     \<exists>ch. parent_chain n h x = Some ch \<and> ListOfMeshes (h (last ch)) = None"
proof (induction n arbitrary: x)
  case 0
  then show ?case by simp
next
  case (Suc n)
  show ?case
  proof (cases "Parent (h x)")
    case None
    with Suc.prems show ?thesis
      by (auto simp: ListOfMeshes_def split: variant.splits)
  next
    case (Some p)
    with Suc.prems have "populate_meshlist n h p obj = Raise AttributeError h'" by simp
    from Suc.IH [OF this] obtain ch where
      c: "parent_chain n h p = Some ch" "ListOfMeshes (h (last ch)) = None" by blast
    from parent_chain_nonempty [OF c(1)] c Some show ?thesis by simp
  qed
qed

lemma add_child_AttributeError:
  assumes "add_child n h p c = Raise AttributeError h'"
  shows "IsMesh (h c) \<and> (\<exists>ch. parent_chain n h p = Some ch \<and> c \<notin> set ch
              \<and> ListOfMeshes (h (last ch)) = None)"
proof -
  let ?h1 = "h(p := (h p)\<lparr>Children := Children (h p) @ [c]\<rparr>)"
  let ?h2 = "give_parent ?h1 c p"
  have par: "Parent (?h2 x) = (if x = c then Some p else Parent (h x))" for x
    by (simp add: give_parent_def)
  have lom: "ListOfMeshes (?h2 x) = ListOfMeshes (h x)" for x
    by (simp add: give_parent_def ListOfMeshes_def)
  have ism: "IsMesh (?h2 c) = IsMesh (h c)" by (auto simp: give_parent_def)
  from assms have mesh: "IsMesh (h c)"
    unfolding add_child_def Let_def ism by (simp split: if_splits)
  with assms have "populate_meshlist n ?h2 p c = Raise AttributeError h'"
    unfolding add_child_def Let_def ism by simp
  from populate_meshlist_AttributeError [OF this] obtain ch where
    c: "parent_chain n ?h2 p = Some ch" "ListOfMeshes (?h2 (last ch)) = None" by blast
  have notin: "c \<notin> set ch"
  proof
    assume "c \<in> set ch"
    from parent_chain_no_cycle [OF c(1) this] show False by (simp add: par)
  qed
  then have "\<forall>y \<in> set ch. Parent (h y) = Parent (?h2 y)" by (auto simp: par)
  from parent_chain_cong [OF c(1) this] have "parent_chain n h p = Some ch" .
  with notin c(2) mesh show ?thesis by (simp add: lom)
qed

lemma example_fields:
  "Parent locator_L1 = None" "Children locator_L1 = []" "IsMesh locator_L1 = False"
  "Parent mesh_M1 = None" "Children mesh_M1 = []" "IsMesh mesh_M1 = True"
  "Parent model_Root = None" "Children model_Root = []" "IsMesh model_Root = False"
  "payload model_Root = ModelV []"
  "Parent model_Sub = None" "Children model_Sub = []" "IsMesh model_Sub = False"
  "payload model_Sub = ModelV []" "payload locator_L1 = LocatorV (PBool False)"
  by (simp_all add: locator_L1_def mesh_M1_def model_Root_def model_Sub_def instance_of_def
      Object_init_def)

lemma nested_run:
  "add_children 3 store_nested [(1, 2), (0, 1)] =
     Return ()
       (store_nested
          (1 := model_Sub\<lparr>Children := [2], payload := ModelV [2]\<rparr>,
           2 := mesh_M1\<lparr>Parent := Some 1\<rparr>,
           0 := model_Root\<lparr>Children := [1]\<rparr>,
           1 := model_Sub\<lparr>Children := [2], payload := ModelV [2], Parent := Some 0\<rparr>))"
  by (simp add: store_nested_def add_child_def give_parent_def numeral_3_eq_3 example_fields
      Let_def fun_upd_twist)

lemma nested_built:
  "store_nested_built =
       store_nested
          (1 := model_Sub\<lparr>Children := [2], payload := ModelV [2]\<rparr>,
           2 := mesh_M1\<lparr>Parent := Some 1\<rparr>,
           0 := model_Root\<lparr>Children := [1]\<rparr>,
           1 := model_Sub\<lparr>Children := [2], payload := ModelV [2], Parent := Some 0\<rparr>)"
  unfolding store_nested_built_def nested_run by (simp add: state_of_def)

text \<open>
  Claim C1 as stated, for every tree assembled by \<open>add_child\<close> alone, fails for a tree
  that is assembled bottom-up: the mesh is attached to the model \<open>Sub\<close>, then \<open>Sub\<close> is
  attached to the model \<open>Root\<close>. Both calls return, \<open>Root\<close> is the parentless root, the
  mesh is below it, and the registry of \<open>Root\<close> is empty.
\<close>

theorem bottom_up_mesh_registry_counterexample:
  "is_Return (add_children 3 store_nested [(1, 2), (0, 1)])
   \<and> Parent (store_nested_built 0) = None
   \<and> Children (store_nested_built 0) = [1]
   \<and> Children (store_nested_built 1) = [2]
   \<and> IsMesh (store_nested_built 2)
   \<and> ListOfMeshes (store_nested_built 0) = Some []
   \<and> \<not> mesh_registry_exact store_nested_built 0"
proof -
  have r: "is_Return (add_children 3 store_nested [(1, 2), (0, 1)])"
    unfolding nested_run by (simp add: is_Return_def)
  have f: "Parent (store_nested_built 0) = None" "Children (store_nested_built 0) = [1]"
    "Children (store_nested_built 1) = [2]" "IsMesh (store_nested_built 2)"
    "ListOfMeshes (store_nested_built 0) = Some []"
    unfolding nested_built by (simp_all add: example_fields ListOfMeshes_def)
  have "(0, 1) \<in> children_rel store_nested_built" "(1, 2) \<in> children_rel store_nested_built"
    using f by (simp_all add: children_rel_def)
  then have "(0, 2) \<in> (children_rel store_nested_built)\<^sup>+"
    by (blast intro: trancl_into_trancl)
  then have "2 \<in> {x \<in> descendants store_nested_built 0. IsMesh (store_nested_built x)}"
    using f(4) by (simp add: descendants_def)
  then have "\<not> mesh_registry_exact store_nested_built 0"
    unfolding mesh_registry_exact_def f(5) by auto
  with r f show ?thesis by blast
qed

lemma mixed_condition:
  "registers_at_final_roots 3 store_mixed [(1, 2), (0, 1), (2, 3), (0, 4)]"
  by (simp add: store_mixed_def add_child_def give_parent_def numeral_3_eq_3 example_fields
      Let_def state_of_def ListOfMeshes_def)

lemma mixed_registry:
  "ListOfMeshes (state_of (add_children 3 store_mixed [(1, 2), (0, 1), (2, 3), (0, 4)]) 0)
     = Some [3, 4]"
  by (simp add: store_mixed_def add_child_def give_parent_def numeral_3_eq_3 example_fields
      Let_def state_of_def ListOfMeshes_def)

lemma nested_condition:
  "\<not> registers_at_final_roots 3 store_nested [(1, 2), (0, 1)]"
  by (simp add: store_nested_def numeral_3_eq_3 example_fields)

theorem mesh_registry_of_final_root_witness:
  "\<exists>h'. add_children 3 store_mixed [(1, 2), (0, 1), (2, 3), (0, 4)] = Return () h'
      \<and> Parent (h' 0) = None
      \<and> mesh_registry_exact h' 0
      \<and> ListOfMeshes (h' 0) = Some [3, 4]"
proof -
  let ?calls = "[(1, 2), (0, 1), (2, 3), (0, 4)] :: (ref \<times> ref) list"
  have root: "Parent (store_mixed 0) = None" "Children (store_mixed 0) = []"
    "ListOfMeshes (store_mixed 0) = Some []" "0 \<notin> snd ` set ?calls"
    by (simp_all add: store_mixed_def example_fields ListOfMeshes_def)
  have new: "\<forall>x \<in> fst ` set ?calls \<union> snd ` set ?calls.
               Parent (store_mixed x) = None \<and> Children (store_mixed x) = []"
    by (simp add: store_mixed_def example_fields)
  have once: "distinct (map snd ?calls)" by simp
  from mesh_registry_of_final_root [OF root new once mixed_condition] obtain h' where
    h': "add_children 3 store_mixed ?calls = Return () h'" "Parent (h' 0) = None"
      "mesh_registry_exact h' 0" by blast
  from h'(1) mixed_registry have "ListOfMeshes (h' 0) = Some [3, 4]"
    by (simp add: state_of_def)
  with h' show ?thesis by blast
qed

section \<open>Properties of the build\<close>

lemma same_tree_fields:
  assumes "same_tree h g"
  shows "Children (g y) = Children (h y)" "Name (g y) = Name (h y)" "Type (g y) = Type (h y)"
    "Transform (g y) = Transform (h y)" "Attributes (g y) = Attributes (h y)"
proof -
  from assms have e: "(g y)\<lparr>NodeData := None, Child_Nodes := None\<rparr>
                        = (h y)\<lparr>NodeData := None, Child_Nodes := None\<rparr>"
    unfolding same_tree_def by blast
  from arg_cong [OF e, of Children] show "Children (g y) = Children (h y)" by simp
  from arg_cong [OF e, of Name] show "Name (g y) = Name (h y)" by simp
  from arg_cong [OF e, of Type] show "Type (g y) = Type (h y)" by simp
  from arg_cong [OF e, of Transform] show "Transform (g y) = Transform (h y)" by simp
  from arg_cong [OF e, of Attributes] show "Attributes (g y) = Attributes (h y)" by simp
qed

lemma same_tree_upd:
  assumes "same_tree h g"
  shows "(g y)\<lparr>NodeData := a, Child_Nodes := b\<rparr> = (h y)\<lparr>NodeData := a, Child_Nodes := b\<rparr>"
proof -
  from assms have e: "(g y)\<lparr>NodeData := None, Child_Nodes := None\<rparr>
                        = (h y)\<lparr>NodeData := None, Child_Nodes := None\<rparr>"
    unfolding same_tree_def by blast
  from arg_cong [OF e, of "\<lambda>r. r\<lparr>NodeData := a, Child_Nodes := b\<rparr>"] show ?thesis by simp
qed

lemma same_tree_refl: "same_tree h h"
  by (simp add: same_tree_def)

lemma same_tree_record_of:
  assumes "same_tree h g"
  shows "record_of n g x = record_of n h x"
proof (induction n arbitrary: x)
  case 0
  show ?case by simp
next
  case (Suc n)
  have "record_of n g = record_of n h" using Suc by (simp add: fun_eq_iff)
  then show ?case by (simp add: same_tree_fields [OF assms])
qed

lemma same_tree_children_rel: "same_tree h g \<Longrightarrow> children_rel g = children_rel h"
  by (simp add: children_rel_def same_tree_fields)

lemma same_tree_reach: "same_tree h g \<Longrightarrow> reach g x = reach h x"
  by (simp add: reach_def same_tree_children_rel)

lemma record_of_mono:
  "record_of n h x = Some d \<Longrightarrow> n \<le> m \<Longrightarrow> record_of m h x = Some d"
proof (induction n arbitrary: x d m)
  case 0
  then show ?case by simp
next
  case (Suc n)
  from Suc.prems(2) obtain m' where m: "m = Suc m'" "n \<le> m'" by (cases m) auto
  show ?case
  proof (cases "Children (h x) = []")
    case True
    with Suc.prems(1) m show ?thesis by simp
  next
    case False
    with Suc.prems(1) have all: "list_all (\<lambda>c. record_of n h c \<noteq> None) (Children (h x))"
      by (simp split: if_splits)
    have eq: "record_of m' h c = record_of n h c" if "c \<in> set (Children (h x))" for c
    proof -
      from all that obtain dc where "record_of n h c = Some dc"
        by (auto simp: list_all_iff)
      with Suc.IH [OF this m(2)] show ?thesis by simp
    qed
    then have mp: "map (record_of m' h) (Children (h x)) = map (record_of n h) (Children (h x))"
      by simp
    from eq all have all': "list_all (\<lambda>c. record_of m' h c \<noteq> None) (Children (h x))"
      by (simp add: list_all_iff)
    from Suc.prems(1) False all
    have "d = TkSceneNodeData (Name (h x)) (Type (h x)) (Transform (h x)) (Attributes (h x))
                   (Some (map (record_of n h) (Children (h x))))"
      by simp
    then show ?thesis
      unfolding m(1) record_of.simps using False all' by (simp only: mp if_True if_False)
  qed
qed

lemma record_of_child:
  assumes "record_of m h x \<noteq> None" and "c \<in> set (Children (h x))"
  shows "record_of m h c \<noteq> None"
proof (cases m)
  case 0
  with assms show ?thesis by simp
next
  case (Suc m')
  with assms have "record_of m' h c \<noteq> None"
    by (auto simp: list_all_iff split: if_splits)
  then obtain d where "record_of m' h c = Some d" by blast
  from record_of_mono [OF this, of m] Suc show ?thesis by simp
qed

lemma record_of_child_pred:
  assumes "record_of (Suc m) h x \<noteq> None" and "c \<in> set (Children (h x))"
  shows "record_of m h c \<noteq> None"
  using assms by (auto simp: list_all_iff split: if_splits)

lemma record_of_reach:
  assumes "y \<in> reach h x" and "record_of m h x \<noteq> None"
  shows "record_of m h y \<noteq> None"
proof -
  from assms(1) have "(x, y) \<in> (children_rel h)\<^sup>*" by (simp add: reach_def)
  then show ?thesis
  proof (induction rule: rtrancl_induct)
    case base
    from assms(2) show ?case .
  next
    case (step y z)
    from step(2) have "z \<in> set (Children (h y))" by (simp add: children_rel_def)
    from record_of_child [OF step(3) this] show ?case .
  qed
qed

lemma no_record_on_cycle:
  assumes "c \<in> set (Children (h x))" and "x \<in> reach h c"
  shows "record_of m h c = None"
proof (induction m)
  case 0
  show ?case by simp
next
  case (Suc m)
  show ?case
  proof (rule ccontr)
    assume "record_of (Suc m) h c \<noteq> None"
    from record_of_reach [OF assms(2) this] have "record_of (Suc m) h x \<noteq> None" .
    from record_of_child_pred [OF this assms(1)] Suc show False by simp
  qed
qed

lemma reach_unfold: "reach h x = insert x (\<Union>c \<in> set (Children (h x)). reach h c)"
proof -
  have "(x, y) \<in> (children_rel h)\<^sup>* \<longleftrightarrow>
          y = x \<or> (\<exists>c \<in> set (Children (h x)). (c, y) \<in> (children_rel h)\<^sup>*)" for y
  proof
    assume "(x, y) \<in> (children_rel h)\<^sup>*"
    then show "y = x \<or> (\<exists>c \<in> set (Children (h x)). (c, y) \<in> (children_rel h)\<^sup>*)"
      by (cases rule: converse_rtranclE) (auto simp: children_rel_def)
  next
    assume "y = x \<or> (\<exists>c \<in> set (Children (h x)). (c, y) \<in> (children_rel h)\<^sup>*)"
    then show "(x, y) \<in> (children_rel h)\<^sup>*"
      by (auto simp: children_rel_def intro: converse_rtrancl_into_rtrancl)
  qed
  then show ?thesis by (auto simp: reach_def)
qed

lemma reach_self: "x \<in> reach h x"
  by (simp add: reach_def)

lemma same_tree_stamp: "same_tree h (stamp n h S)"
  by (simp add: same_tree_def stamp_def split: option.splits)

lemma same_tree_building: "same_tree h (building n h x pre)"
  using same_tree_stamp [of h n "\<Union>c \<in> set pre. reach h c"]
  by (simp add: same_tree_def building_def)

lemma stamp_in:
  "y \<in> S \<Longrightarrow> record_of n h y = Some d \<Longrightarrow>
     stamp n h S y = (h y)\<lparr>NodeData := Some d, Child_Nodes := nd_Children d\<rparr>"
  by (simp add: stamp_def)

lemma stamp_out: "y \<notin> S \<Longrightarrow> stamp n h S y = h y"
  by (simp add: stamp_def)

lemma building_step:
  assumes x: "x \<notin> reach h c"
    and rc: "record_of n h c \<noteq> None"
  shows "(stamp n (building n h x pre) (reach h c))
           (x := ((stamp n (building n h x pre) (reach h c)) x)
                   \<lparr>Child_Nodes := Some (map (record_of n h) pre
                        @ [get_data (stamp n (building n h x pre) (reach h c)) c])\<rparr>)
         = building n h x (pre @ [c])"
    (is "?L = ?R")
proof
  fix y
  let ?g = "building n h x pre"
  let ?g1 = "stamp n ?g (reach h c)"
  have st: "same_tree h ?g" by (rule same_tree_building)
  have rg: "record_of n ?g z = record_of n h z" for z
    by (rule same_tree_record_of [OF st])
  from rc obtain dc where dc: "record_of n h c = Some dc" by blast
  have "?g1 c = (?g c)\<lparr>NodeData := Some dc, Child_Nodes := nd_Children dc\<rparr>"
    by (rule stamp_in) (simp_all add: reach_self rg dc)
  then have gd: "get_data ?g1 c = record_of n h c"
    by (simp add: get_data_def dc)
  show "?L y = ?R y"
  proof (cases "y = x")
    case True
    have "?g1 x = ?g x" using x by (simp add: stamp_out)
    then have "?g1 x = (h x)\<lparr>Child_Nodes := Some (map (record_of n h) pre)\<rparr>"
      by (simp add: building_def)
    with True gd show ?thesis
      by (simp add: building_def)
  next
    case False
    show ?thesis
    proof (cases "y \<in> reach h c")
      case True
      from record_of_reach [OF True rc] obtain d where d: "record_of n h y = Some d" by blast
      have "?g1 y = (?g y)\<lparr>NodeData := Some d, Child_Nodes := nd_Children d\<rparr>"
        using True by (rule stamp_in) (simp add: rg d)
      also have "\<dots> = (h y)\<lparr>NodeData := Some d, Child_Nodes := nd_Children d\<rparr>"
        by (rule same_tree_upd [OF st])
      finally have l: "?g1 y = (h y)\<lparr>NodeData := Some d, Child_Nodes := nd_Children d\<rparr>" .
      have "stamp n h (\<Union>c \<in> set (pre @ [c]). reach h c) y
              = (h y)\<lparr>NodeData := Some d, Child_Nodes := nd_Children d\<rparr>"
        using True by (intro stamp_in d) simp
      with l False show ?thesis by (simp add: building_def)
    next
      case nr: False
      have "?g1 y = ?g y" using nr by (simp add: stamp_out)
      also have "\<dots> = stamp n h (\<Union>c \<in> set pre. reach h c) y"
        using False by (simp add: building_def)
      also have "\<dots> = stamp n h (\<Union>c \<in> set (pre @ [c]). reach h c) y"
        using nr by (simp add: stamp_def)
      finally show ?thesis using False by (simp add: building_def)
    qed
  qed
qed

lemma construct_children_steps:
  assumes IH: "\<And>g c. record_of n g c \<noteq> None \<Longrightarrow>
                  construct_data n g c = Return None (stamp n g (reach g c))"
    and recs: "\<forall>c \<in> set cs. record_of n h c \<noteq> None"
    and acyc: "\<forall>c \<in> set cs. x \<notin> reach h c"
  shows "construct_children n (building n h x pre) x (cs @ rest)
           = construct_children n (building n h x (pre @ cs)) x rest"
  using recs acyc
proof (induction cs arbitrary: pre)
  case Nil
  show ?case by simp
next
  case (Cons c cs)
  let ?g = "building n h x pre"
  let ?g1 = "stamp n ?g (reach h c)"
  have st: "same_tree h ?g" by (rule same_tree_building)
  from Cons.prems have rc: "record_of n h c \<noteq> None" and xc: "x \<notin> reach h c" by simp_all
  from rc have "record_of n ?g c \<noteq> None"
    by (simp add: same_tree_record_of [OF st])
  from IH [OF this] have cd: "construct_data n ?g c = Return None ?g1"
    by (simp add: same_tree_reach [OF st])
  have "?g1 x = ?g x" using xc by (simp add: stamp_out)
  then have cn: "Child_Nodes (?g1 x) = Some (map (record_of n h) pre)"
    by (simp add: building_def)
  have "construct_children n ?g x ((c # cs) @ rest)
          = construct_children n (building n h x (pre @ [c])) x (cs @ rest)"
    by (simp add: cd cn building_step [OF xc rc])
  also have "\<dots> = construct_children n (building n h x ((pre @ [c]) @ cs)) x rest"
    using Cons.prems by (intro Cons.IH) simp_all
  finally show ?case by simp
qed

lemma building_Nil: "building n h x [] = h(x := (h x)\<lparr>Child_Nodes := Some []\<rparr>)"
  by (simp add: building_def stamp_def)

lemma children_acyclic:
  assumes "record_of n h c \<noteq> None" and "c \<in> set (Children (h x))"
  shows "x \<notin> reach h c"
proof
  assume "x \<in> reach h c"
  from no_record_on_cycle [OF assms(2) this, of n] assms(1) show False by simp
qed

lemma construct_data_stamp:
  "record_of n h x = Some d \<Longrightarrow> construct_data n h x = Return None (stamp n h (reach h x))"
proof (induction n arbitrary: h x d)
  case 0
  then show ?case by simp
next
  case (Suc n)
  let ?cs = "Children (h x)"
  show ?case
  proof (cases "?cs = []")
    case True
    with Suc.prems have d: "d = TkSceneNodeData (Name (h x)) (Type (h x)) (Transform (h x))
                                  (Attributes (h x)) None"
      by simp
    from True have r: "reach h x = {x}"
      by (simp add: reach_unfold [of h x])
    have "stamp (Suc n) h {x} = h(x := (h x)\<lparr>NodeData := Some d, Child_Nodes := None\<rparr>)"
      using Suc.prems d by (auto simp: stamp_def fun_eq_iff)
    with True d show ?thesis
      unfolding r by (simp add: fun_eq_iff)
  next
    case False
    with Suc.prems have all: "list_all (\<lambda>c. record_of n h c \<noteq> None) ?cs"
      and d: "d = TkSceneNodeData (Name (h x)) (Type (h x)) (Transform (h x)) (Attributes (h x))
                   (Some (map (record_of n h) ?cs))"
      by (simp_all split: if_splits)
    from all have recs: "\<forall>c \<in> set ?cs. record_of n h c \<noteq> None"
      by (simp add: list_all_iff)
    have acyc: "\<forall>c \<in> set ?cs. x \<notin> reach h c"
    proof
      fix c assume c: "c \<in> set ?cs"
      with recs have "record_of n h c \<noteq> None" by simp
      from children_acyclic [OF this c] show "x \<notin> reach h c" .
    qed
    have IH: "\<And>g c. record_of n g c \<noteq> None \<Longrightarrow>
                  construct_data n g c = Return None (stamp n g (reach g c))"
      using Suc.IH by blast
    from construct_children_steps [of n ?cs h x "[]" "[]", OF IH recs acyc]
    have loop: "construct_children n (h(x := (h x)\<lparr>Child_Nodes := Some []\<rparr>)) x ?cs
                  = Return () (building n h x ?cs)"
      by (simp add: building_Nil)
    have bx: "building n h x ?cs x = (h x)\<lparr>Child_Nodes := Some (map (record_of n h) ?cs)\<rparr>"
      by (simp add: building_def)
    have fin: "(building n h x ?cs)
                 (x := (building n h x ?cs x)\<lparr>NodeData := Some d\<rparr>)
               = stamp (Suc n) h (reach h x)" (is "?L = ?R")
    proof
      fix y
      show "?L y = ?R y"
      proof (cases "y = x")
        case True
        have "?R x = (h x)\<lparr>NodeData := Some d, Child_Nodes := nd_Children d\<rparr>"
          by (rule stamp_in [OF reach_self Suc.prems])
        with True show ?thesis by (simp add: bx d)
      next
        case ne: False
        show ?thesis
        proof (cases "y \<in> (\<Union>c \<in> set ?cs. reach h c)")
          case True
          then obtain c where c: "c \<in> set ?cs" "y \<in> reach h c" by blast
          from recs c(1) have "record_of n h c \<noteq> None" by blast
          from record_of_reach [OF c(2) this] obtain dy where dy: "record_of n h y = Some dy"
            by blast
          from record_of_mono [OF dy, of "Suc n"] have dy': "record_of (Suc n) h y = Some dy"
            by simp
          have "y \<in> reach h x" using True by (simp add: reach_unfold [of h x])
          from stamp_in [OF this dy'] stamp_in [OF True dy] ne show ?thesis
            by (simp add: building_def)
        next
          case False
          with ne have "y \<notin> reach h x" by (simp add: reach_unfold [of h x])
          from stamp_out [OF this] stamp_out [OF False] ne show ?thesis
            by (simp add: building_def)
        qed
      qed
    qed
    have "construct_data (Suc n) h x
            = Return None ((building n h x ?cs)
                 (x := (building n h x ?cs x)\<lparr>NodeData := Some d\<rparr>))"
      using False by (simp add: loop bx d)
    with fin show ?thesis by simp
  qed
qed

lemma construct_data_raises:
  "record_of n h x = None \<Longrightarrow> \<exists>e h'. construct_data n h x = Raise e h'"
proof (induction n arbitrary: h x)
  case 0
  show ?case by simp
next
  case (Suc n)
  let ?cs = "Children (h x)"
  from Suc.prems have ne: "?cs \<noteq> []"
    and "\<not> list_all (\<lambda>c. record_of n h c \<noteq> None) ?cs"
    by (simp_all split: if_splits)
  then have "\<exists>c \<in> set ?cs. record_of n h c = None"
    by (simp add: list_all_iff)
  from split_list_first_prop [OF this] obtain pre c post where
    sp: "?cs = pre @ c # post" "record_of n h c = None" "\<forall>y \<in> set pre. record_of n h y \<noteq> None"
    by blast
  have "set pre \<subseteq> set ?cs" unfolding sp(1) by auto
  have acyc: "\<forall>c \<in> set pre. x \<notin> reach h c"
  proof
    fix c assume c: "c \<in> set pre"
    with sp(3) have r: "record_of n h c \<noteq> None" by simp
    from c \<open>set pre \<subseteq> set ?cs\<close> have "c \<in> set ?cs" by blast
    from children_acyclic [OF r this] show "x \<notin> reach h c" .
  qed
  have IH: "\<And>g c. record_of n g c \<noteq> None \<Longrightarrow>
                  construct_data n g c = Return None (stamp n g (reach g c))"
    using construct_data_stamp by blast
  from construct_children_steps [of n pre h x "[]" "c # post", OF IH sp(3) acyc]
  have loop: "construct_children n (h(x := (h x)\<lparr>Child_Nodes := Some []\<rparr>)) x ?cs
                = construct_children n (building n h x pre) x (c # post)"
    by (simp add: building_Nil sp(1))
  have "record_of n (building n h x pre) c = None"
    using sp(2) by (simp add: same_tree_record_of [OF same_tree_building])
  from Suc.IH [OF this] obtain e h' where "construct_data n (building n h x pre) c = Raise e h'"
    by blast
  then have "construct_children n (building n h x pre) x (c # post) = Raise e h'"
    by simp
  with loop ne show ?case by simp
qed

lemma construct_data_Return:
  assumes "construct_data n h x = Return v h'"
  shows "v = None \<and> record_of n h x \<noteq> None \<and> h' = stamp n h (reach h x)"
proof (cases "record_of n h x")
  case None
  from construct_data_raises [OF this] assms show ?thesis by auto
next
  case (Some d)
  from construct_data_stamp [OF this] assms Some show ?thesis by simp
qed



lemma record_of_fields:
  assumes "record_of n h x = Some d"
  shows "d = TkSceneNodeData (Name (h x)) (Type (h x)) (Transform (h x)) (Attributes (h x))
               (nd_Children d)"
  using assms by (cases n) (auto split: if_splits)

lemma stamp_idem:
  assumes "same_tree h g" and "\<forall>y \<in> S. record_of n h y \<noteq> None \<and> g y = stamp n h S y"
    and "\<forall>y. y \<notin> S \<longrightarrow> g y = h y"
  shows "stamp n g S = stamp n h S"
proof
  fix y
  show "stamp n g S y = stamp n h S y"
  proof (cases "y \<in> S")
    case True
    with assms(2) obtain d where d: "record_of n h y = Some d" by blast
    then have d': "record_of n g y = Some d" by (simp add: same_tree_record_of [OF assms(1)])
    from stamp_in [OF True d'] stamp_in [OF True d] same_tree_upd [OF assms(1)]
    show ?thesis by simp
  next
    case False
    with assms(3) show ?thesis by (simp add: stamp_out)
  qed
qed

text \<open>
  Claim C9. When \<open>construct_data\<close> has returned, a second call on the same node of the
  unmodified tree returns as well and leaves the store as the first call left it: every
  record it builds is equal to the record the first call built.
\<close>

theorem construct_data_idempotent:
  assumes "construct_data n h self = Return v h'"
  shows "construct_data n h' self = Return v h'"
proof -
  from construct_data_Return [OF assms] obtain d where
    v: "v = None" and d: "record_of n h self = Some d" and h': "h' = stamp n h (reach h self)"
    by blast
  have st: "same_tree h h'" unfolding h' by (rule same_tree_stamp)
  from d have d': "record_of n h' self = Some d"
    by (simp add: same_tree_record_of [OF st])
  have "\<forall>y \<in> reach h self. record_of n h y \<noteq> None \<and> h' y = stamp n h (reach h self) y"
  proof
    fix y assume y: "y \<in> reach h self"
    from d have "record_of n h self \<noteq> None" by simp
    from record_of_reach [OF y this] h'
    show "record_of n h y \<noteq> None \<and> h' y = stamp n h (reach h self) y" by simp
  qed
  moreover have "\<forall>y. y \<notin> reach h self \<longrightarrow> h' y = h y"
    unfolding h' by (simp add: stamp_out)
  ultimately have "stamp n h' (reach h self) = h'"
    using stamp_idem [OF st, of "reach h self" n] h' by simp
  with construct_data_stamp [OF d'] v show ?thesis
    by (simp add: same_tree_reach [OF st])
qed

text \<open>
  Claim C4, as amended. A call of \<open>construct_data\<close> that returns, returns no value
  (\<open>None\<close>); the node's newly constructed record, made of the node's name, type, transform
  and attributes and of the children records collected in \<open>Child_Nodes\<close>, is stored in
  \<open>NodeData\<close>, from where \<open>get_data\<close> returns it.
\<close>

theorem construct_data_stores_record:
  assumes "construct_data n h self = Return v h'"
  shows "v = None
       \<and> get_data h' self =
           Some (TkSceneNodeData (Name (h self)) (Type (h self)) (Transform (h self))
                   (Attributes (h self)) (Child_Nodes (h' self)))"
proof -
  from construct_data_Return [OF assms] obtain d where
    v: "v = None" and d: "record_of n h self = Some d" and h': "h' = stamp n h (reach h self)"
    by blast
  from stamp_in [OF reach_self d]
  have "h' self = (h self)\<lparr>NodeData := Some d, Child_Nodes := nd_Children d\<rparr>"
    unfolding h' .
  with record_of_fields [OF d] v show ?thesis
    by (simp add: get_data_def)
qed


lemma example_names:
  "Name locator_L1 = ''L1''" "Type locator_L1 = ''LOCATOR''" "Transform locator_L1 = TkTransformData"
  "Attributes locator_L1 = None"
  "Name mesh_M1 = ''M1''" "Type mesh_M1 = ''MESH''" "Transform mesh_M1 = TkTransformData"
  "Attributes mesh_M1 = None"
  "Name model_Root = ''Root''" "Type model_Root = ''MODEL''" "Transform model_Root = TkTransformData"
  "Attributes model_Root = None"
  by (simp_all add: locator_L1_def mesh_M1_def model_Root_def instance_of_def
      Object_init_def dict_get_def)

lemma leaf_run:
  "construct_data 1 store_L1 0 =
     Return None (store_L1(0 := locator_L1\<lparr>Child_Nodes := None, NodeData := Some record_L1\<rparr>))"
  by (simp add: store_L1_def example_fields example_names record_L1_def)

text \<open>
  Claim C4 as stated, that \<open>construct_data\<close> returns the node's record, fails on a single
  locator: the call returns \<open>None\<close>, and the record is in \<open>NodeData\<close>.
\<close>

theorem construct_data_return_value_counterexample:
  "return_value (construct_data 1 store_L1 0) = Some None
   \<and> get_data (state_of (construct_data 1 store_L1 0)) 0 = Some record_L1
   \<and> return_value (construct_data 1 store_L1 0)
       \<noteq> Some (get_data (state_of (construct_data 1 store_L1 0)) 0)"
  unfolding leaf_run by (simp add: return_value_def state_of_def get_data_def)

lemma tree_run:
  "construct_data 2 store_tree 0 =
     Return None
       (store_tree
          (1 := mesh_M1\<lparr>Parent := Some 0, Child_Nodes := None, NodeData := Some record_M1\<rparr>,
           2 := locator_L1\<lparr>Parent := Some 0, Child_Nodes := None, NodeData := Some record_L1\<rparr>,
           0 := model_Root\<lparr>Children := [1, 2], payload := ModelV [1],
                  Child_Nodes := Some [Some record_M1, Some record_L1],
                  NodeData := Some record_Root\<rparr>))"
  by (simp add: store_tree_def numeral_2_eq_2 example_fields example_names record_L1_def
      record_M1_def record_Root_def get_data_def fun_upd_twist)


theorem construct_data_stores_record_witness:
  "construct_data 2 store_tree 0 = Return None store_tree_built
   \<and> get_data store_tree_built 0 = Some record_Root"
proof -
  have run: "construct_data 2 store_tree 0 = Return None store_tree_built"
    unfolding store_tree_built_def by (rule tree_run)
  from construct_data_stores_record [OF run] have "get_data store_tree_built 0 =
           Some (TkSceneNodeData (Name (store_tree 0)) (Type (store_tree 0))
                   (Transform (store_tree 0)) (Attributes (store_tree 0))
                   (Child_Nodes (store_tree_built 0)))"
    by simp
  then have "get_data store_tree_built 0 = Some record_Root"
    by (simp add: store_tree_def store_tree_built_def example_names record_Root_def)
  with run show ?thesis by simp
qed

theorem construct_data_idempotent_witness:
  "construct_data 2 store_tree 0 = Return None store_tree_built
   \<and> construct_data 2 store_tree_built 0 = Return None store_tree_built"
proof -
  have run: "construct_data 2 store_tree 0 = Return None store_tree_built"
    unfolding store_tree_built_def by (rule tree_run)
  from construct_data_idempotent [OF run] run show ?thesis by simp
qed

end
